theory Spec2Isabelle
  imports Complex_Main "HOL-Library.Word" "HOL-Library.Multiset"
begin

section \<open>Data model\<close>

text \<open>
  Exceptions of the run are values. \<open>S3Error\<close> stands for whatever the storage client
  raises (network failure, permission denial, missing object); the others are the Python
  built-ins the driver can meet.
\<close>

datatype error = S3Error string | OSError | ValueError | ZeroDivisionError | OverflowError

text \<open>
  The dataclass \<open>Stats\<close>. \<open>bytes_total\<close> is a Python int. \<open>seconds\<close> is a float; a Stats
  value of a run holds the difference of two clock readings there, a finite double, which
  is the real number kept here.
\<close>

record stats =
  label :: string
  bytes_total :: int
  seconds :: real

subsection \<open>Float arithmetic\<close>

text \<open>
  A Python float is an IEEE 754 double. The result of a division of finite operands is a
  finite double, given by its real value, or an infinity.
\<close>

datatype pyfloat = Finite real | PosInf | NegInf

definition pow2 :: "int \<Rightarrow> real" where
  "pow2 e = (if 0 \<le> e then 2 ^ nat e else 1 / 2 ^ nat (- e))"

definition round_half_even :: "real \<Rightarrow> int" where
  "round_half_even q =
     (let f = \<lfloor>q\<rfloor>; d = q - of_int f
      in if d < 1 / 2 then f else if 1 / 2 < d then f + 1 else if even f then f else f + 1)"

text \<open>
  Rounding to the nearest double, ties to even: a double is a multiple of \<open>2 ^ e\<close> with a
  multiplier below \<open>2 ^ 53\<close> in magnitude, where \<open>e\<close> is 52 below the binary exponent of the
  number and never below \<open>- 1074\<close> (the subnormal range).
\<close>

definition round_double :: "real \<Rightarrow> real" where
  "round_double r =
     (if r = 0 then 0
      else (let e = max (- 1074) (\<lfloor>log 2 \<bar>r\<bar>\<rfloor> - 52)
            in of_int (round_half_even (r / pow2 e)) * pow2 e))"

text \<open>
  The least magnitude that rounds past the largest double \<open>2 ^ 1024 - 2 ^ 971\<close>: half a
  unit in the last place above it.
\<close>

definition overflow_bound :: real where
  "overflow_bound = 2 ^ 1024 - 2 ^ 970"

definition to_float :: "real \<Rightarrow> pyfloat" where
  "to_float q =
     (if overflow_bound \<le> q then PosInf
      else if q \<le> - overflow_bound then NegInf
      else Finite (round_double q))"

text \<open>
  \<open>a / b\<close> on two ints: the quotient correctly rounded, \<open>ZeroDivisionError\<close> for a zero
  divisor and \<open>OverflowError\<close> when the result is too large for a float.
\<close>

definition int_truediv :: "int \<Rightarrow> int \<Rightarrow> error + real" where
  "int_truediv a b =
     (if b = 0 then Inl ZeroDivisionError
      else if overflow_bound \<le> \<bar>real_of_int a / real_of_int b\<bar> then Inl OverflowError
      else Inr (round_double (real_of_int a / real_of_int b)))"

text \<open>
  \<open>x / y\<close> on two finite floats: \<open>ZeroDivisionError\<close> for a zero divisor, otherwise the
  rounded quotient, an infinity when it leaves the range of the doubles.
\<close>

definition float_truediv :: "real \<Rightarrow> real \<Rightarrow> error + pyfloat" where
  "float_truediv x y = (if y = 0 then Inl ZeroDivisionError else Inr (to_float (x / y)))"

subsection \<open>The derived properties of \<open>Stats\<close>\<close>

definition mib :: "stats \<Rightarrow> error + real" where
  "mib s = int_truediv (bytes_total s) (1024 * 1024)"

text \<open>
  The conditional expression tests \<open>self.seconds > 0\<close> first and evaluates \<open>self.mib\<close> only
  in its first branch.
\<close>

definition mib_per_s :: "stats \<Rightarrow> error + pyfloat" where
  "mib_per_s s =
     (if seconds s > 0 then
        (case mib s of Inl e \<Rightarrow> Inl e | Inr m \<Rightarrow> float_truediv m (seconds s))
      else Inr PosInf)"

section \<open>Key namespace generator\<close>

definition digit_char :: "nat \<Rightarrow> char" where
  "digit_char d = char_of (48 + d)"

text \<open>Decimal digits of a natural number, most significant first (\<open>str(i)\<close> for \<open>i \<ge> 0\<close>).\<close>

fun dec_digits :: "nat \<Rightarrow> string" where
  "dec_digits n =
     (if n < 10 then [digit_char n] else dec_digits (n div 10) @ [digit_char (n mod 10)])"

declare dec_digits.simps [simp del]

definition str_int :: "int \<Rightarrow> string" where
  "str_int i = (if i < 0 then CHR ''-'' # dec_digits (nat (- i)) else dec_digits (nat i))"

text \<open>
  The format spec \<open>05d\<close> on an index of \<open>range(n)\<close>, which is never negative: the decimal
  digits, filled with zeros on the left up to a width of five, never truncated.
\<close>

definition fmt_05d :: "nat \<Rightarrow> string" where
  "fmt_05d i = replicate (5 - length (dec_digits i)) CHR ''0'' @ dec_digits i"

definition gen_object_keys :: "string \<Rightarrow> int \<Rightarrow> string list" where
  "gen_object_keys pfx n = map (\<lambda>i. pfx @ ''/obj_'' @ fmt_05d i @ ''.bin'') [0..<nat n]"

text \<open>\<open>str.rstrip(chars)\<close>: drop every trailing character that occurs in \<open>chars\<close>.\<close>

definition rstrip :: "string \<Rightarrow> string \<Rightarrow> string" where
  "rstrip s chars = rev (dropWhile (\<lambda>c. c \<in> set chars) (rev s))"

text \<open>Reading a decimal string back, used to state that an index is recoverable from a key.\<close>

definition digit_val :: "char \<Rightarrow> nat" where
  "digit_val c = of_char c - 48"

definition dec_value :: "string \<Rightarrow> nat" where
  "dec_value s = foldl (\<lambda>acc c. 10 * acc + digit_val c) 0 s"

section \<open>Local data generator\<close>

text \<open>
  \<open>random.Random(0xC0FFEE)\<close> is library code: the generator is a state \<open>'s\<close> with a step
  \<open>gb\<close> for \<open>getrandbits(8)\<close>, both taken as parameters. \<open>block\<close> is
  \<open>bytes(rnd.getrandbits(8) for _ in range(n))\<close>: \<open>n\<close> draws in sequence, none when
  \<open>n \<le> 0\<close>.
\<close>

type_synonym byte = "8 word"

primrec draw_bytes :: "('s \<Rightarrow> byte \<times> 's) \<Rightarrow> nat \<Rightarrow> 's \<Rightarrow> byte list \<times> 's" where
  "draw_bytes gb 0 s = ([], s)"
| "draw_bytes gb (Suc n) s =
     (case gb s of (b, s') \<Rightarrow> (case draw_bytes gb n s' of (bs, s'') \<Rightarrow> (b # bs, s'')))"

definition block :: "('s \<Rightarrow> byte \<times> 's) \<Rightarrow> int \<Rightarrow> 's \<Rightarrow> byte list \<times> 's" where
  "block gb n s = draw_bytes gb (nat n) s"

text \<open>
  The \<open>while remaining > 0\<close> loop. \<open>written\<close> is the list of blocks handed to \<open>f.write\<close>
  so far, one entry per call; what each call stores is \<open>raw_write\<close> below. The loop
  subtracts \<open>n\<close> whatever the call returns. It need not terminate, hence the option:
  \<open>None\<close> is a run that never returns.
\<close>

partial_function (option) write_loop ::
  "('s \<Rightarrow> byte \<times> 's) \<Rightarrow> int \<Rightarrow> 's \<Rightarrow> int \<Rightarrow> byte list list \<Rightarrow> byte list list option" where
  "write_loop gb chunk_bytes rnd remaining written =
     (if remaining > 0 then
        (let n = min chunk_bytes remaining in
         case block gb n rnd of (blk, rnd') \<Rightarrow>
           write_loop gb chunk_bytes rnd' (remaining - n) (written @ [blk]))
      else Some written)"

declare write_loop.simps [code]

definition write_local_file ::
  "('s \<Rightarrow> byte \<times> 's) \<Rightarrow> 's \<Rightarrow> int \<Rightarrow> int \<Rightarrow> byte list list option" where
  "write_local_file gb seeded size_bytes chunk_bytes = write_loop gb chunk_bytes seeded size_bytes []"

text \<open>
  The file is opened with \<open>buffering=0\<close>, so \<open>f.write\<close> is one raw write: it stores the
  first bytes of its block, at most \<open>write_max\<close> of them, and returns their number, which
  the loop does not read. \<open>open(path, "wb")\<close> starts from an empty file (opening is taken
  to succeed), so the file after the loop is what these calls stored, in order.
\<close>

definition raw_write :: "nat \<Rightarrow> byte list \<Rightarrow> byte list \<Rightarrow> byte list" where
  "raw_write write_max content blk = content @ take write_max blk"

definition file_written :: "nat \<Rightarrow> byte list list \<Rightarrow> byte list" where
  "file_written write_max blocks = foldl (raw_write write_max) [] blocks"

text \<open>The most one \<open>write\<close> call transfers on Linux: \<open>0x7ffff000\<close> bytes.\<close>

definition linux_write_max :: nat where
  "linux_write_max = 2147479552"

section \<open>The storage client and the local environment\<close>

text \<open>
  \<open>TransferConfig\<close>, as the upload phase builds it.
\<close>

record transfer_config =
  multipart_threshold :: int
  multipart_chunksize :: int
  max_concurrency :: int
  use_threads :: bool

text \<open>
  The collaborators the driver calls, as functions of their arguments. A call that raises
  yields the error. \<open>config_error\<close> is what the library's constructor \<open>TransferConfig\<close>
  raises for the given settings, if it rejects them; \<open>write_max\<close> is the most bytes one raw
  write to a local file stores. \<open>get_object\<close> yields the body as the
  results of its successive \<open>read(read_chunk)\<close> calls, each the length of the data returned
  or an error;
  \<open>get_object_range\<close> yields the length of the data of one ranged request
  (\<open>Range=bytes=start-end\<close>); \<open>as_completed\<close> hands the futures of a phase back in the
  order they finish; \<open>randbits\<close> is the raw value behind the draw that worker \<open>key\<close> makes
  in its \<open>j\<close>-th iteration (the module-level generator is shared by the workers, so a worker
  may see any values); \<open>now\<close> is the \<open>k\<close>-th reading of the performance counter.
\<close>

record world =
  write_max :: nat
  config_error :: "transfer_config \<Rightarrow> error option"
  upload_file :: "string \<Rightarrow> string \<Rightarrow> string \<Rightarrow> transfer_config \<Rightarrow> error option"
  get_object :: "string \<Rightarrow> string \<Rightarrow> int \<Rightarrow> error + (error + nat) list"
  head_object :: "string \<Rightarrow> string \<Rightarrow> error + int"
  get_object_range :: "string \<Rightarrow> string \<Rightarrow> int \<Rightarrow> int \<Rightarrow> error + nat"
  delete_objects :: "string \<Rightarrow> string list \<Rightarrow> bool \<Rightarrow> error option"
  as_completed :: "(error + int) list \<Rightarrow> (error + int) list"
  randbits :: "string \<Rightarrow> nat \<Rightarrow> nat"
  now :: "nat \<Rightarrow> real"

text \<open>The local file system: the content of each existing file.\<close>

type_synonym fs = "string \<rightharpoonup> byte list"

definition getsize :: "fs \<Rightarrow> string \<Rightarrow> error + int" where
  "getsize files path = (case files path of None \<Rightarrow> Inl OSError | Some c \<Rightarrow> Inr (int (length c)))"

definition os_remove :: "fs \<Rightarrow> string \<Rightarrow> error + fs" where
  "os_remove files path = (case files path of None \<Rightarrow> Inl OSError | Some c \<Rightarrow> Inr (files(path := None)))"

section \<open>Concurrent phases\<close>

text \<open>
  \<open>for f in as_completed(futures): total += f.result()\<close>, over the futures in the order
  they finish: \<open>f.result()\<close> of a worker that raised raises the same error here, which
  leaves the loop.
\<close>

fun collect :: "(error + int) list \<Rightarrow> int \<Rightarrow> error + int" where
  "collect [] tot = Inr tot"
| "collect (Inl e # fs) tot = Inl e"
| "collect (Inr n # fs) tot = collect fs (tot + n)"

definition upload_one :: "world \<Rightarrow> string \<Rightarrow> string \<Rightarrow> transfer_config \<Rightarrow> int \<Rightarrow> string \<Rightarrow> error + int" where
  "upload_one w local_path bucket cfg file_size key =
     (case upload_file w local_path bucket key cfg of Some e \<Rightarrow> Inl e | None \<Rightarrow> Inr file_size)"

text \<open>\<open>ThreadPoolExecutor(max_workers=n)\<close> raises \<open>ValueError\<close> unless \<open>n > 0\<close>.\<close>

definition s3_upload_many ::
  "world \<Rightarrow> fs \<Rightarrow> real \<Rightarrow> real \<Rightarrow> string \<Rightarrow> string list \<Rightarrow> string \<Rightarrow> int \<Rightarrow> int \<Rightarrow> error + stats" where
  "s3_upload_many w files t0 t1 bucket keys local_path part_size max_conc =
     (let cfg = \<lparr>multipart_threshold = part_size, multipart_chunksize = part_size,
                 max_concurrency = max_conc, use_threads = True\<rparr>
      in case config_error w cfg of
           Some e \<Rightarrow> Inl e
         | None \<Rightarrow>
             (case getsize files local_path of
                Inl e \<Rightarrow> Inl e
              | Inr file_size \<Rightarrow>
                  if max_conc \<le> 0 then Inl ValueError
                  else (case collect (as_completed w
                               (map (upload_one w local_path bucket cfg file_size) keys)) 0 of
                          Inl e \<Rightarrow> Inl e
                        | Inr tot \<Rightarrow>
                            Inr \<lparr>label = ''S3 PUT (upload_file)'', bytes_total = tot,
                                 seconds = t1 - t0\<rparr>)))"

text \<open>
  The \<open>while True\<close> loop of \<open>_download_one\<close> over the body's reads: an empty read ends it.
  A body whose reads are used up returns empty data from then on.
\<close>

fun read_body :: "(error + nat) list \<Rightarrow> int \<Rightarrow> error + int" where
  "read_body [] n = Inr n"
| "read_body (Inl e # rs) n = Inl e"
| "read_body (Inr len # rs) n = (if len = 0 then Inr n else read_body rs (n + int len))"

definition download_one :: "world \<Rightarrow> string \<Rightarrow> int \<Rightarrow> string \<Rightarrow> error + int" where
  "download_one w bucket read_chunk key =
     (case get_object w bucket key read_chunk of Inl e \<Rightarrow> Inl e | Inr body \<Rightarrow> read_body body 0)"

definition s3_download_many ::
  "world \<Rightarrow> real \<Rightarrow> real \<Rightarrow> string \<Rightarrow> string list \<Rightarrow> int \<Rightarrow> int \<Rightarrow> error + stats" where
  "s3_download_many w t0 t1 bucket keys read_chunk max_conc =
     (if max_conc \<le> 0 then Inl ValueError
      else (case collect (as_completed w (map (download_one w bucket read_chunk) keys)) 0 of
              Inl e \<Rightarrow> Inl e
            | Inr tot \<Rightarrow>
                Inr \<lparr>label = ''S3 GET (stream read)'', bytes_total = tot, seconds = t1 - t0\<rparr>))"

text \<open>
  \<open>random.randint(a, b)\<close> is library code. It raises \<open>ValueError\<close> on an empty range and
  otherwise returns \<open>a\<close> plus a value below the width \<open>b - a + 1\<close>; that value is modelled as
  the raw value reduced modulo the width, so every raw value gives a result and every
  result in \<open>[a, b]\<close> comes from some raw value.
\<close>

definition randint :: "nat \<Rightarrow> int \<Rightarrow> int \<Rightarrow> error + int" where
  "randint u a b = (if b < a then Inl ValueError else Inr (a + int u mod (b - a + 1)))"

definition range_start :: "int \<Rightarrow> int \<Rightarrow> nat \<Rightarrow> error + int" where
  "range_start sz range_size u =
     (if sz \<le> range_size then Inr 0 else randint u 0 (sz - range_size))"

text \<open>
  The \<open>for _ in range(ranges_per_obj)\<close> loop of \<open>_range_read_one\<close>, over the iteration
  numbers. Next to the worker's result it returns the ranged requests it has issued, as the
  pairs \<open>(start, end)\<close> of the \<open>Range\<close> header, in order.
\<close>

fun range_read_loop ::
  "world \<Rightarrow> string \<Rightarrow> string \<Rightarrow> int \<Rightarrow> int \<Rightarrow> nat list \<Rightarrow> int \<Rightarrow> (int \<times> int) list \<times> (error + int)" where
  "range_read_loop w bucket key sz range_size [] n = ([], Inr n)"
| "range_read_loop w bucket key sz range_size (j # js) n =
     (case range_start sz range_size (randbits w key j) of
        Inl e \<Rightarrow> ([], Inl e)
      | Inr start \<Rightarrow>
          (let end_off = start + range_size - 1 in
           case get_object_range w bucket key start end_off of
             Inl e \<Rightarrow> ([(start, end_off)], Inl e)
           | Inr len \<Rightarrow>
               (case range_read_loop w bucket key sz range_size js (n + int len) of
                  (reqs, r) \<Rightarrow> ((start, end_off) # reqs, r))))"

definition range_read_one ::
  "world \<Rightarrow> string \<Rightarrow> int \<Rightarrow> int \<Rightarrow> string \<Rightarrow> (int \<times> int) list \<times> (error + int)" where
  "range_read_one w bucket ranges_per_obj range_size key =
     (case head_object w bucket key of
        Inl e \<Rightarrow> ([], Inl e)
      | Inr sz \<Rightarrow> range_read_loop w bucket key sz range_size [0..<nat ranges_per_obj] 0)"

definition range_label :: "int \<Rightarrow> int \<Rightarrow> string" where
  "range_label ranges_per_obj range_size =
     ''S3 GET Range ('' @ str_int ranges_per_obj @ ''x'' @ str_int range_size @ ''B per obj)''"

definition s3_range_read_many ::
  "world \<Rightarrow> real \<Rightarrow> real \<Rightarrow> string \<Rightarrow> string list \<Rightarrow> int \<Rightarrow> int \<Rightarrow> int \<Rightarrow> error + stats" where
  "s3_range_read_many w t0 t1 bucket keys ranges_per_obj range_size max_conc =
     (if max_conc \<le> 0 then Inl ValueError
      else (case collect (as_completed w
                   (map (\<lambda>k. snd (range_read_one w bucket ranges_per_obj range_size k)) keys)) 0 of
              Inl e \<Rightarrow> Inl e
            | Inr tot \<Rightarrow>
                Inr \<lparr>label = range_label ranges_per_obj range_size, bytes_total = tot,
                     seconds = t1 - t0\<rparr>))"

section \<open>Bulk delete\<close>

text \<open>
  \<open>for i in range(0, len(keys), 1000)\<close> with the slice \<open>keys[i:i+1000]\<close>. The result is the
  list of \<open>delete_objects\<close> requests issued, each with its keys and its \<open>Quiet\<close> flag, and
  the error of the request that raised, if one did.
\<close>

function delete_loop ::
  "world \<Rightarrow> string \<Rightarrow> string list \<Rightarrow> nat \<Rightarrow> (string list \<times> bool) list \<times> error option" where
  "delete_loop w bucket keys i =
     (if i < length keys then
        (let chunk = take 1000 (drop i keys) in
         case delete_objects w bucket chunk True of
           Some e \<Rightarrow> ([(chunk, True)], Some e)
         | None \<Rightarrow>
             (case delete_loop w bucket keys (i + 1000) of
                (reqs, r) \<Rightarrow> ((chunk, True) # reqs, r)))
      else ([], None))"
  by pat_completeness auto
termination
  by (relation "measure (\<lambda>(w, bucket, keys, i). length keys - i)") auto

declare delete_loop.simps [simp del]

definition s3_delete_many ::
  "world \<Rightarrow> string \<Rightarrow> string list \<Rightarrow> (string list \<times> bool) list \<times> error option" where
  "s3_delete_many w bucket keys = delete_loop w bucket keys 0"

section \<open>Driver\<close>

record args =
  arg_bucket :: string
  arg_prefix :: string
  arg_keys :: int
  arg_obj_mib :: int
  arg_write_chunk_kib :: int
  arg_part_mib :: int
  arg_read_chunk_kib :: int
  arg_max_concurrency :: int
  arg_range_reads_per_obj :: int
  arg_range_kib :: int
  arg_keep :: bool

text \<open>
  What a run leaves behind, in order: the statistics lines it prints, the batch-delete
  requests it sends and its call of \<open>os.remove\<close>. The progress messages carry no data and
  are left out.
\<close>

datatype event =
  Report stats
| DeleteObjects string "string list" bool
| OsRemove string

text \<open>The key list of a run: the prefix argument without its trailing slashes.\<close>

definition main_keys :: "args \<Rightarrow> string list" where
  "main_keys a = gen_object_keys (rstrip (arg_prefix a) ''/'') (arg_keys a)"

definition local_path_of :: "args \<Rightarrow> string" where
  "local_path_of a = ''/tmp/s3_microbench_'' @ str_int (arg_obj_mib a) @ ''MiB.bin''"

text \<open>
  The end of \<open>main\<close>, from the comment \<open># Cleanup\<close> on: the \<open>if args.keep\<close> statement, then
  the \<open>try\<close> around \<open>os.remove\<close>, which follows the \<open>if\<close> and is not part of its \<open>else\<close>
  branch. An error of a delete request leaves \<open>main\<close> before the \<open>try\<close>.
\<close>

definition cleanup ::
  "world \<Rightarrow> fs \<Rightarrow> string \<Rightarrow> string list \<Rightarrow> bool \<Rightarrow> string \<Rightarrow> event list \<times> fs \<times> error option" where
  "cleanup w files bucket keys keep local_path =
     (case (if keep then ([], None) else s3_delete_many w bucket keys) of
        (reqs, Some e) \<Rightarrow> (map (\<lambda>(ks, q). DeleteObjects bucket ks q) reqs, files, Some e)
      | (reqs, None) \<Rightarrow>
          (case os_remove files local_path of
             Inl e \<Rightarrow>
               (map (\<lambda>(ks, q). DeleteObjects bucket ks q) reqs @ [OsRemove local_path], files,
                if e = OSError then None else Some e)
           | Inr files' \<Rightarrow>
               (map (\<lambda>(ks, q). DeleteObjects bucket ks q) reqs @ [OsRemove local_path], files', None)))"

text \<open>
  The three measured phases of \<open>main\<close>, each followed by its statistics line; the ranged
  reads run only when their count is positive. The result is the lines printed and the
  error that ended the run, if any.
\<close>

definition run_phases ::
  "world \<Rightarrow> fs \<Rightarrow> string \<Rightarrow> string list \<Rightarrow> string \<Rightarrow> int \<Rightarrow> int \<Rightarrow> int \<Rightarrow> int \<Rightarrow> int \<Rightarrow>
     event list \<times> error option" where
  "run_phases w files bucket keys local_path part_size read_chunk range_size max_conc ranges_per_obj =
     (case s3_upload_many w files (now w 2) (now w 3) bucket keys local_path part_size max_conc of
        Inl e \<Rightarrow> ([], Some e)
      | Inr put_stats \<Rightarrow>
          (case s3_download_many w (now w 4) (now w 5) bucket keys read_chunk max_conc of
             Inl e \<Rightarrow> ([Report put_stats], Some e)
           | Inr get_stats \<Rightarrow>
               (if ranges_per_obj > 0 then
                  (case s3_range_read_many w (now w 6) (now w 7) bucket keys ranges_per_obj
                          range_size max_conc of
                     Inl e \<Rightarrow> ([Report put_stats, Report get_stats], Some e)
                   | Inr rr_stats \<Rightarrow>
                       ([Report put_stats, Report get_stats, Report rr_stats], None))
                else ([Report put_stats, Report get_stats], None))))"

text \<open>
  \<open>main\<close> after argument parsing, with the storage client created. The result is \<open>None\<close>
  when the local generation never returns; otherwise the events, the file system at the end
  and the error that ended the run, if any. The line printed after the generation divides
  by the elapsed time, which raises when that time is zero.
\<close>

definition main ::
  "('s \<Rightarrow> byte \<times> 's) \<Rightarrow> 's \<Rightarrow> world \<Rightarrow> fs \<Rightarrow> args \<Rightarrow> (event list \<times> fs \<times> error option) option" where
  "main gb seeded w files a =
     (let bucket = arg_bucket a;
          keys = main_keys a;
          obj_bytes = arg_obj_mib a * 1024 * 1024;
          write_chunk = arg_write_chunk_kib a * 1024;
          part_size = arg_part_mib a * 1024 * 1024;
          read_chunk = arg_read_chunk_kib a * 1024;
          range_size = arg_range_kib a * 1024;
          local_path = local_path_of a
      in case write_local_file gb seeded obj_bytes write_chunk of
           None \<Rightarrow> None
         | Some blocks \<Rightarrow>
             Some
              (let files1 = files(local_path \<mapsto> file_written (write_max w) blocks);
                   gen_secs = now w 1 - now w 0
               in if gen_secs = 0 then ([], files1, Some ZeroDivisionError)
                  else
                    (case run_phases w files1 bucket keys local_path part_size read_chunk
                            range_size (arg_max_concurrency a) (arg_range_reads_per_obj a) of
                       (reports, Some e) \<Rightarrow> (reports, files1, Some e)
                     | (reports, None) \<Rightarrow>
                         (case cleanup w files1 bucket keys (arg_keep a) local_path of
                            (evs, files2, r) \<Rightarrow> (reports @ evs, files2, r)))))"

section \<open>A concrete environment\<close>

text \<open>
  A storage service on which every request succeeds and every object is \<open>obj_len\<close> bytes
  long, with workers finishing in reverse order of submission, and a small congruential
  generator: the inputs at which the theorems below are instantiated.
\<close>

definition calm_world :: "nat \<Rightarrow> world" where
  "calm_world obj_len =
     \<lparr>write_max = 2147479552,
      config_error = (\<lambda>cfg. None),
      upload_file = (\<lambda>local_path bucket key cfg. None),
      get_object = (\<lambda>bucket key read_chunk. Inr [Inr obj_len]),
      head_object = (\<lambda>bucket key. Inr (int obj_len)),
      get_object_range = (\<lambda>bucket key start end_off. Inr (nat (min (int obj_len - 1) end_off - start + 1))),
      delete_objects = (\<lambda>bucket ks quiet. None),
      as_completed = rev,
      randbits = (\<lambda>key j. 7 * j + 3),
      now = real\<rparr>"

definition lcg :: "nat \<Rightarrow> byte \<times> nat" where
  "lcg s = (word_of_nat s, (5 * s + 3) mod 256)"

definition bench_args :: "bool \<Rightarrow> args" where
  "bench_args keep =
     \<lparr>arg_bucket = ''b'', arg_prefix = ''p/'', arg_keys = 2, arg_obj_mib = 0,
      arg_write_chunk_kib = 1024, arg_part_mib = 8, arg_read_chunk_kib = 1024,
      arg_max_concurrency = 2, arg_range_reads_per_obj = 0, arg_range_kib = 256,
      arg_keep = keep\<rparr>"


section \<open>Notions used to state the properties\<close>

definition is_digit :: "char \<Rightarrow> bool" where
  "is_digit c = (48 \<le> (of_char c :: nat) \<and> (of_char c :: nat) \<le> 57)"

text \<open>
  The index written in a key: the decimal number between the prefix with \<open>/obj_\<close> and the
  suffix \<open>.bin\<close>.
\<close>

definition key_index :: "string \<Rightarrow> string \<Rightarrow> nat" where
  "key_index pfx k = dec_value (take (length k - length pfx - 9) (drop (length pfx + 5) k))"

section \<open>Properties\<close>

subsection \<open>Rounding up a quotient\<close>

lemma ceil_div_real:
  fixes a c :: int
  assumes "1 \<le> c"
  shows "\<lceil>real_of_int a / real_of_int c\<rceil> = (a + c - 1) div c"
proof -
  define q where "q = (a + c - 1) div c"
  define r where "r = (a + c - 1) mod c"
  have r: "0 \<le> r" "r < c"
    using assms by (simp_all add: r_def)
  have "a + c - 1 = q * c + r"
    by (simp add: q_def r_def)
  then have "- a = (c - 1 - r) + (- q) * c"
    by (simp add: algebra_simps)
  then have "(- a) div c = ((c - 1 - r) + (- q) * c) div c"
    by simp
  also have "\<dots> = (- q) + (c - 1 - r) div c"
    using assms by (simp only: div_mult_self1)
  also have "(c - 1 - r) div c = 0"
    using r by (simp add: div_pos_pos_trivial)
  finally have "(- a) div c = - q"
    by simp
  moreover have "\<lceil>real_of_int a / real_of_int c\<rceil> = - \<lfloor>real_of_int (- a) / real_of_int c\<rfloor>"
    by (simp add: ceiling_def)
  moreover have "\<lfloor>real_of_int (- a) / real_of_int c\<rfloor> = (- a) div c"
    by (rule floor_divide_of_int_eq)
  ultimately show ?thesis
    by (simp add: q_def)
qed

subsection \<open>Throughput\<close>

lemma round_half_even_of_int: "round_half_even (of_int k) = k"
  by (simp add: round_half_even_def)

lemma round_double_1: "round_double 1 = 1"
proof -
  have "(2::real) ^ 52 = of_int (2 ^ 52)"
    by simp
  then have "round_half_even ((2::real) ^ 52) = 2 ^ 52"
    by (simp only: round_half_even_of_int)
  then show ?thesis
    by (simp add: round_double_def pow2_def)
qed

lemma round_double_2: "round_double 2 = 2"
proof -
  have "(2::real) ^ 52 = of_int (2 ^ 52)"
    by simp
  then have "round_half_even ((2::real) ^ 52) = 2 ^ 52"
    by (simp only: round_half_even_of_int)
  then show ?thesis
    by (simp add: round_double_def pow2_def)
qed

lemma overflow_bound_pos: "0 < overflow_bound"
  by (simp add: overflow_bound_def)

text \<open>
  C4, as the code has it: for every Stats value (with a finite \<open>seconds\<close>), whenever
  \<open>seconds \<le> 0\<close>, zero and negative included, the throughput is positive infinity and
  nothing is raised, whatever \<open>bytes_total\<close> is. When \<open>seconds > 0\<close> it is the float result
  of \<open>(bytes_total / 1048576) / seconds\<close>: \<open>OverflowError\<close> is raised when
  \<open>bytes_total / 1048576\<close> is too large for a float; otherwise that quotient, rounded to a
  double, is divided by \<open>seconds\<close> and rounded again, an infinity when the result leaves the
  range of the doubles; and it is the exact quotient when neither division rounds.
\<close>

theorem mib_per_s_float:
  "(seconds s \<le> 0 \<longrightarrow> mib_per_s s = Inr PosInf) \<and>
   (0 < seconds s \<and> overflow_bound \<le> \<bar>real_of_int (bytes_total s) / 1048576\<bar> \<longrightarrow>
      mib_per_s s = Inl OverflowError) \<and>
   (0 < seconds s \<and> \<bar>real_of_int (bytes_total s) / 1048576\<bar> < overflow_bound \<longrightarrow>
      mib_per_s s =
        Inr (to_float (round_double (real_of_int (bytes_total s) / 1048576) / seconds s))) \<and>
   (0 < seconds s \<and> \<bar>real_of_int (bytes_total s) / 1048576\<bar> < overflow_bound \<and>
    round_double (real_of_int (bytes_total s) / 1048576) = real_of_int (bytes_total s) / 1048576 \<and>
    \<bar>real_of_int (bytes_total s) / 1048576 / seconds s\<bar> < overflow_bound \<and>
    round_double (real_of_int (bytes_total s) / 1048576 / seconds s) =
      real_of_int (bytes_total s) / 1048576 / seconds s \<longrightarrow>
      mib_per_s s = Inr (Finite (real_of_int (bytes_total s) / 1048576 / seconds s)))"
proof (intro conjI impI)
  assume "seconds s \<le> 0"
  then show "mib_per_s s = Inr PosInf"
    by (simp add: mib_per_s_def)
next
  assume "0 < seconds s \<and> overflow_bound \<le> \<bar>real_of_int (bytes_total s) / 1048576\<bar>"
  then show "mib_per_s s = Inl OverflowError"
    by (simp add: mib_per_s_def mib_def int_truediv_def)
next
  assume "0 < seconds s \<and> \<bar>real_of_int (bytes_total s) / 1048576\<bar> < overflow_bound"
  then show "mib_per_s s =
      Inr (to_float (round_double (real_of_int (bytes_total s) / 1048576) / seconds s))"
    by (simp add: mib_per_s_def mib_def int_truediv_def float_truediv_def)
next
  assume a: "0 < seconds s \<and> \<bar>real_of_int (bytes_total s) / 1048576\<bar> < overflow_bound \<and>
    round_double (real_of_int (bytes_total s) / 1048576) = real_of_int (bytes_total s) / 1048576 \<and>
    \<bar>real_of_int (bytes_total s) / 1048576 / seconds s\<bar> < overflow_bound \<and>
    round_double (real_of_int (bytes_total s) / 1048576 / seconds s) =
      real_of_int (bytes_total s) / 1048576 / seconds s"
  define q where "q = real_of_int (bytes_total s) / 1048576"
  from a have "\<not> overflow_bound \<le> \<bar>q\<bar>" and "round_double q = q"
    unfolding q_def by auto
  then have m: "mib s = Inr q"
    unfolding mib_def int_truediv_def q_def by simp
  from a have l: "\<bar>q / seconds s\<bar> < overflow_bound"
    unfolding q_def by blast
  from a have r: "round_double (q / seconds s) = q / seconds s"
    unfolding q_def by blast
  from l have "\<not> overflow_bound \<le> q / seconds s" "\<not> q / seconds s \<le> - overflow_bound"
    by linarith+
  with r have "to_float (q / seconds s) = Finite (q / seconds s)"
    by (simp add: to_float_def)
  moreover from a have "0 < seconds s"
    by blast
  ultimately have "mib_per_s s = Inr (Finite (q / seconds s))"
    using m by (simp add: mib_per_s_def float_truediv_def)
  then show "mib_per_s s = Inr (Finite (real_of_int (bytes_total s) / 1048576 / seconds s))"
    unfolding q_def .
qed

theorem mib_per_s_float_witness:
  "mib_per_s \<lparr>label = ''S3 GET (stream read)'', bytes_total = 2097152, seconds = 2\<rparr> =
     Inr (Finite 1) \<and>
   mib_per_s \<lparr>label = ''S3 GET (stream read)'', bytes_total = 2097152, seconds = 0\<rparr> =
     Inr PosInf \<and>
   mib_per_s \<lparr>label = ''S3 GET (stream read)'', bytes_total = 2 ^ 1100, seconds = - 1\<rparr> =
     Inr PosInf \<and>
   mib \<lparr>label = ''S3 GET (stream read)'', bytes_total = 2 ^ 1100, seconds = - 1\<rparr> =
     Inl OverflowError \<and>
   mib_per_s \<lparr>label = ''S3 GET (stream read)'', bytes_total = 2 ^ 1100, seconds = 2\<rparr> =
     Inl OverflowError"
proof -
  have b: "(2::real) < overflow_bound" "(1::real) < overflow_bound"
    by (simp_all add: overflow_bound_def)
  have f: "to_float 1 = Finite 1"
    by (simp add: to_float_def overflow_bound_def round_double_1)
  have big: "overflow_bound \<le> \<bar>real_of_int (2 ^ 1100) / 1048576\<bar>"
    by (simp add: overflow_bound_def)
  have m: "mib \<lparr>label = ''S3 GET (stream read)'', bytes_total = 2 ^ 1100, seconds = - 1\<rparr> =
     Inl OverflowError"
    using big by (simp add: mib_def int_truediv_def)
  from mib_per_s_float [of "\<lparr>label = ''S3 GET (stream read)'', bytes_total = 2097152, seconds = 2\<rparr>"]
    mib_per_s_float [of "\<lparr>label = ''S3 GET (stream read)'', bytes_total = 2097152, seconds = 0\<rparr>"]
    mib_per_s_float [of "\<lparr>label = ''S3 GET (stream read)'', bytes_total = 2 ^ 1100, seconds = - 1\<rparr>"]
    mib_per_s_float [of "\<lparr>label = ''S3 GET (stream read)'', bytes_total = 2 ^ 1100, seconds = 2\<rparr>"]
    b big m f
  show ?thesis
    by (simp add: round_double_1 round_double_2)
qed

text \<open>
  C4 as stated fails. With \<open>bytes_total = 2 ^ 1100\<close> and \<open>seconds = 1\<close> the throughput is not
  a value: \<open>OverflowError\<close> is raised, while \<open>seconds > 0\<close>. With \<open>bytes_total = 2097152\<close> and
  the smallest positive double for \<open>seconds\<close> it is positive infinity, while
  \<open>(bytes_total / 1048576) / seconds\<close> is \<open>2 ^ 1075\<close>.
\<close>

theorem mib_per_s_overflow:
  "mib_per_s \<lparr>label = ''S3 GET (stream read)'', bytes_total = 2 ^ 1100, seconds = 1\<rparr> =
     Inl OverflowError \<and>
   mib_per_s \<lparr>label = ''S3 GET (stream read)'', bytes_total = 2097152, seconds = 1 / 2 ^ 1074\<rparr> =
     Inr PosInf \<and>
   real_of_int 2097152 / 1048576 / (1 / 2 ^ 1074) = 2 ^ 1075"
proof -
  have big: "overflow_bound \<le> \<bar>real_of_int (2 ^ 1100) / 1048576\<bar>"
    by (simp add: overflow_bound_def)
  have one: "mib_per_s \<lparr>label = ''S3 GET (stream read)'', bytes_total = 2 ^ 1100, seconds = 1\<rparr> =
     Inl OverflowError"
    using big by (simp add: mib_per_s_def mib_def int_truediv_def)
  have small: "(2::real) < overflow_bound"
    by (simp add: overflow_bound_def)
  have q: "(2::real) / (1 / 2 ^ 1074) = 2 ^ 1075"
    by simp
  have inf: "to_float (2 ^ 1075) = PosInf"
    by (simp add: to_float_def overflow_bound_def)
  have two: "mib_per_s \<lparr>label = ''S3 GET (stream read)'', bytes_total = 2097152, seconds = 1 / 2 ^ 1074\<rparr> =
     Inr PosInf"
    using small inf
    by (simp add: mib_per_s_def mib_def int_truediv_def float_truediv_def round_double_2)
  from one two q show ?thesis
    by simp
qed

subsection \<open>Key namespace generator\<close>

lemma digit_val_digit_char: "d < 10 \<Longrightarrow> digit_val (digit_char d) = d"
  by (simp add: digit_val_def digit_char_def)

lemma is_digit_digit_char: "d < 10 \<Longrightarrow> is_digit (digit_char d)"
  by (simp add: is_digit_def digit_char_def)

lemma dec_value_snoc: "dec_value (s @ [c]) = 10 * dec_value s + digit_val c"
  by (simp add: dec_value_def)

lemma dec_value_dec_digits: "dec_value (dec_digits n) = n"
proof (induction n rule: dec_digits.induct)
  case (1 n)
  show ?case
  proof (cases "n < 10")
    case True
    then show ?thesis
      by (subst dec_digits.simps) (simp add: dec_value_def digit_val_digit_char)
  next
    case False
    with 1 have "dec_value (dec_digits (n div 10)) = n div 10" by simp
    with False show ?thesis
      by (subst dec_digits.simps) (simp add: dec_value_snoc digit_val_digit_char)
  qed
qed

lemma is_digit_dec_digits: "c \<in> set (dec_digits n) \<Longrightarrow> is_digit c"
proof (induction n rule: dec_digits.induct)
  case (1 n)
  show ?case
  proof (cases "n < 10")
    case True
    with 1(2) show ?thesis
      by (subst (asm) dec_digits.simps) (simp add: is_digit_digit_char)
  next
    case False
    with 1 show ?thesis
      by (subst (asm) (2) dec_digits.simps) (auto simp: is_digit_digit_char)
  qed
qed

lemma length_dec_digits: "0 < k \<Longrightarrow> n < 10 ^ k \<Longrightarrow> length (dec_digits n) \<le> k"
proof (induction n arbitrary: k rule: dec_digits.induct)
  case (1 n)
  show ?case
  proof (cases "n < 10")
    case True
    with 1(2) show ?thesis
      by (subst dec_digits.simps) simp
  next
    case False
    with 1(3) have k2: "1 < k"
      by (cases "k = 1") (use 1(2) in auto)
    then obtain j where j: "k = Suc j" "0 < j"
      by (cases k) auto
    with 1(3) have "n div 10 < 10 ^ j"
      by (simp add: less_mult_imp_div_less mult.commute)
    with 1(1) [OF False j(2)] have "length (dec_digits (n div 10)) \<le> j" .
    with False j show ?thesis
      by (subst dec_digits.simps) simp
  qed
qed

lemma dec_value_zeros: "dec_value (replicate k CHR ''0'' @ s) = dec_value s"
proof -
  have "foldl (\<lambda>acc c. 10 * acc + digit_val c) 0 (replicate k CHR ''0'') = 0"
    by (induction k) (simp_all add: digit_val_def)
  then show ?thesis
    by (simp add: dec_value_def)
qed

lemma dec_value_fmt_05d: "dec_value (fmt_05d i) = i"
  by (simp add: fmt_05d_def dec_value_zeros dec_value_dec_digits)

lemma length_fmt_05d: "5 \<le> length (fmt_05d i)"
  by (simp add: fmt_05d_def)

lemma length_fmt_05d_small: "i < 100000 \<Longrightarrow> length (fmt_05d i) = 5"
  using length_dec_digits [of 5 i] by (simp add: fmt_05d_def)

lemma is_digit_zero: "is_digit CHR ''0''"
  by (simp add: is_digit_def)

lemma is_digit_fmt_05d: "c \<in> set (fmt_05d i) \<Longrightarrow> is_digit c"
  by (auto simp: fmt_05d_def is_digit_dec_digits is_digit_zero)

lemma key_index_key: "key_index pfx (pfx @ ''/obj_'' @ d @ ''.bin'') = dec_value d"
  by (simp add: key_index_def)

lemma map_key_index: "map (key_index pfx) (gen_object_keys pfx n) = [0..<nat n]"
proof -
  have idx: "key_index pfx \<circ> (\<lambda>i. pfx @ ''/obj_'' @ fmt_05d i @ ''.bin'') = (\<lambda>i. i)"
    by (rule ext) (simp only: o_def key_index_key dec_value_fmt_05d)
  show ?thesis
    unfolding gen_object_keys_def map_map idx by simp
qed

lemma distinct_gen_object_keys: "distinct (gen_object_keys pfx n)"
proof -
  have "distinct (map (key_index pfx) (gen_object_keys pfx n))"
    by (simp add: map_key_index)
  then show ?thesis
    by (simp add: distinct_map)
qed

text \<open>
  C6: for every prefix and every count \<open>n \<ge> 1\<close> the key generator returns exactly \<open>n\<close>
  pairwise distinct keys; the key at position \<open>i\<close> is the prefix, \<open>/obj_\<close>, the index \<open>i\<close>
  in decimal digits filled with zeros to five places, and \<open>.bin\<close>; so the indices read
  off the keys are \<open>0, 1, \<dots>, n - 1\<close> in this order, strictly ascending.
\<close>

theorem gen_object_keys_spec:
  "1 \<le> n \<Longrightarrow>
     length (gen_object_keys pfx n) = nat n \<and>
     distinct (gen_object_keys pfx n) \<and>
     map (key_index pfx) (gen_object_keys pfx n) = [0..<nat n] \<and>
     (\<forall>i < nat n. \<exists>d. gen_object_keys pfx n ! i = pfx @ ''/obj_'' @ d @ ''.bin'' \<and>
        dec_value d = i \<and> 5 \<le> length d \<and> (i < 100000 \<longrightarrow> length d = 5) \<and>
        (\<forall>c \<in> set d. is_digit c))"
proof (intro conjI allI impI)
  show "length (gen_object_keys pfx n) = nat n"
    by (simp add: gen_object_keys_def)
  show "distinct (gen_object_keys pfx n)"
    by (rule distinct_gen_object_keys)
  show "map (key_index pfx) (gen_object_keys pfx n) = [0..<nat n]"
    by (rule map_key_index)
next
  fix i assume i: "i < nat n"
  have "gen_object_keys pfx n ! i = pfx @ ''/obj_'' @ fmt_05d i @ ''.bin''"
    using i by (simp add: gen_object_keys_def)
  then show "\<exists>d. gen_object_keys pfx n ! i = pfx @ ''/obj_'' @ d @ ''.bin'' \<and>
        dec_value d = i \<and> 5 \<le> length d \<and> (i < 100000 \<longrightarrow> length d = 5) \<and>
        (\<forall>c \<in> set d. is_digit c)"
    using dec_value_fmt_05d length_fmt_05d length_fmt_05d_small is_digit_fmt_05d by blast
qed

theorem gen_object_keys_spec_witness:
  "(1::int) \<le> 2 \<and> gen_object_keys ''prefix'' 2 = [''prefix/obj_00000.bin'', ''prefix/obj_00001.bin''] \<and>
   distinct (gen_object_keys ''prefix'' 2) \<and>
   map (key_index ''prefix'') (gen_object_keys ''prefix'' 2) = [0..<nat 2]"
proof -
  have "gen_object_keys ''prefix'' 2 = [''prefix/obj_00000.bin'', ''prefix/obj_00001.bin'']"
    by code_simp
  then show ?thesis
    using gen_object_keys_spec [of 2 "''prefix''"] by simp
qed

subsection \<open>Prefix normalisation\<close>

lemma rstrip_trailing: "rstrip (p @ replicate k c) [c] = rstrip p [c]"
proof -
  have "dropWhile (\<lambda>x. x \<in> set [c]) (replicate k c @ ys) = dropWhile (\<lambda>x. x \<in> set [c]) ys" for ys
    by (induction k) simp_all
  then show ?thesis
    by (simp add: rstrip_def)
qed

lemma rstrip_no_trailing: "rstrip s chars = [] \<or> last (rstrip s chars) \<notin> set chars"
proof (cases "dropWhile (\<lambda>c. c \<in> set chars) (rev s) = []")
  case True
  then show ?thesis by (simp add: rstrip_def)
next
  case False
  then have "hd (dropWhile (\<lambda>c. c \<in> set chars) (rev s)) \<notin> set chars"
    by (rule hd_dropWhile)
  with False show ?thesis
    by (simp add: rstrip_def last_rev)
qed

lemma rstrip_decompose: "\<exists>m. s = rstrip s [c] @ replicate m c"
proof -
  have "rev s = takeWhile (\<lambda>x. x \<in> set [c]) (rev s) @ dropWhile (\<lambda>x. x \<in> set [c]) (rev s)"
    by simp
  moreover have "takeWhile (\<lambda>x. x \<in> set [c]) (rev s) = replicate (length (takeWhile (\<lambda>x. x \<in> set [c]) (rev s))) c"
    by (rule replicate_length_same [symmetric]) (auto dest: set_takeWhileD)
  ultimately have "rev s = replicate (length (takeWhile (\<lambda>x. x \<in> set [c]) (rev s))) c @ dropWhile (\<lambda>x. x \<in> set [c]) (rev s)"
    by simp
  then have "s = rev (dropWhile (\<lambda>x. x \<in> set [c]) (rev s)) @ replicate (length (takeWhile (\<lambda>x. x \<in> set [c]) (rev s))) c"
    by (metis rev_append rev_replicate rev_rev_ident)
  then show ?thesis
    unfolding rstrip_def by blast
qed

text \<open>
  C9: the prefix argument loses all its trailing slashes before the keys are generated: two
  prefix arguments that differ only in the number of trailing slashes give the same key
  list, the argument is the stripped prefix followed by slashes only, the stripped prefix
  does not end in a slash, and every key is the stripped prefix followed by \<open>/obj_\<close>, so no
  doubled separator stands between the prefix and the \<open>obj_\<close> segment.
\<close>

theorem main_keys_prefix_stripped:
  "main_keys (a\<lparr>arg_prefix := p @ replicate j CHR ''/''\<rparr>) =
     main_keys (a\<lparr>arg_prefix := p @ replicate k CHR ''/''\<rparr>) \<and>
   (\<exists>m. arg_prefix a = rstrip (arg_prefix a) ''/'' @ replicate m CHR ''/'') \<and>
   (rstrip (arg_prefix a) ''/'' = [] \<or> last (rstrip (arg_prefix a) ''/'') \<noteq> CHR ''/'') \<and>
   (\<forall>key \<in> set (main_keys a). \<exists>d. key = rstrip (arg_prefix a) ''/'' @ ''/obj_'' @ d @ ''.bin'')"
proof (intro conjI)
  show "main_keys (a\<lparr>arg_prefix := p @ replicate j CHR ''/''\<rparr>) =
     main_keys (a\<lparr>arg_prefix := p @ replicate k CHR ''/''\<rparr>)"
    by (simp add: main_keys_def rstrip_trailing)
  show "\<exists>m. arg_prefix a = rstrip (arg_prefix a) ''/'' @ replicate m CHR ''/''"
    by (rule rstrip_decompose)
  show "rstrip (arg_prefix a) ''/'' = [] \<or> last (rstrip (arg_prefix a) ''/'') \<noteq> CHR ''/''"
    using rstrip_no_trailing [of "arg_prefix a" "''/''"] by simp
  show "\<forall>key \<in> set (main_keys a). \<exists>d. key = rstrip (arg_prefix a) ''/'' @ ''/obj_'' @ d @ ''.bin''"
    by (auto simp: main_keys_def gen_object_keys_def)
qed

theorem main_keys_prefix_stripped_witness:
  "main_keys (bench_args True\<lparr>arg_prefix := ''p'' @ replicate 3 CHR ''/''\<rparr>) = [''p/obj_00000.bin'', ''p/obj_00001.bin''] \<and>
   main_keys (bench_args True\<lparr>arg_prefix := ''p'' @ replicate 0 CHR ''/''\<rparr>) = [''p/obj_00000.bin'', ''p/obj_00001.bin''] \<and>
   ''p/obj_00000.bin'' \<in> set (main_keys (bench_args True)) \<and>
   rstrip (arg_prefix (bench_args True)) ''/'' = ''p''"
proof -
  have k: "main_keys (bench_args True) = [''p/obj_00000.bin'', ''p/obj_00001.bin'']"
    by code_simp
  have k0: "main_keys (bench_args True\<lparr>arg_prefix := ''p'' @ replicate 0 CHR ''/''\<rparr>) = [''p/obj_00000.bin'', ''p/obj_00001.bin'']"
    by code_simp
  have r: "rstrip (arg_prefix (bench_args True)) ''/'' = ''p''"
    by code_simp
  show ?thesis
    using main_keys_prefix_stripped [where a = "bench_args True" and p = "''p''" and j = 3 and k = 0] k k0 r
    by simp
qed

subsection \<open>Bulk delete\<close>


lemma delete_loop_done: "\<not> i < length keys \<Longrightarrow> delete_loop w bucket keys i = ([], None)"
  by (subst delete_loop.simps) simp

lemma delete_loop_step:
  assumes "i < length keys" and "delete_objects w bucket (take 1000 (drop i keys)) True = None"
  shows "delete_loop w bucket keys i =
     ((take 1000 (drop i keys), True) # fst (delete_loop w bucket keys (i + 1000)),
      snd (delete_loop w bucket keys (i + 1000)))"
  using assms by (subst delete_loop.simps) (simp add: Let_def split: prod.splits)

lemma delete_loop_raise:
  assumes "i < length keys" and "delete_objects w bucket (take 1000 (drop i keys)) True = Some e"
  shows "delete_loop w bucket keys i = ([(take 1000 (drop i keys), True)], Some e)"
  using assms by (subst delete_loop.simps) (simp add: Let_def)

lemma ceil_step: "i + 1000 \<le> (m::nat) \<Longrightarrow> Suc ((m - (i + 1000) + 999) div 1000) = (m - i + 999) div 1000"
proof -
  assume "i + 1000 \<le> m"
  then have "m - i + 999 = (m - (i + 1000) + 999) + 1000"
    by simp
  then show ?thesis
    by (simp only: div_add_self2)
qed

lemma ceil_last: "i < (m::nat) \<Longrightarrow> \<not> i + 1000 \<le> m \<Longrightarrow> (m - i + 999) div 1000 = 1"
  by (rule div_nat_eqI) simp_all

lemma delete_loop_ok:
  "(\<forall>ks. delete_objects w bucket ks True = None) \<Longrightarrow>
    snd (delete_loop w bucket keys i) = None \<and>
    concat (map fst (fst (delete_loop w bucket keys i))) = drop i keys \<and>
    length (fst (delete_loop w bucket keys i)) = (length keys - i + 999) div 1000 \<and>
    (\<forall>r \<in> set (fst (delete_loop w bucket keys i)). fst r \<noteq> [] \<and> length (fst r) \<le> 1000 \<and> snd r)"
proof (induction w bucket keys i rule: delete_loop.induct)
  case (1 w bucket keys i)
  show ?case
  proof (cases "i < length keys")
    case False
    then show ?thesis
      by (simp add: delete_loop_done)
  next
    case True
    let ?chunk = "take 1000 (drop i keys)"
    let ?rest = "delete_loop w bucket keys (i + 1000)"
    have step: "delete_loop w bucket keys i = ((?chunk, True) # fst ?rest, snd ?rest)"
      using True 1(2) by (simp add: delete_loop_step)
    have ih: "snd ?rest = None \<and>
        concat (map fst (fst ?rest)) = drop (i + 1000) keys \<and>
        length (fst ?rest) = (length keys - (i + 1000) + 999) div 1000 \<and>
        (\<forall>r \<in> set (fst ?rest). fst r \<noteq> [] \<and> length (fst r) \<le> 1000 \<and> snd r)"
      using 1(1) [OF True refl _ 1(2)] 1(2) by simp
    have cat: "?chunk @ drop (i + 1000) keys = drop i keys"
      by (metis add.commute append_take_drop_id drop_drop)
    have len: "Suc ((length keys - (i + 1000) + 999) div 1000) = (length keys - i + 999) div 1000"
    proof (cases "i + 1000 \<le> length keys")
      case True
      then show ?thesis by (rule ceil_step)
    next
      case False
      with True show ?thesis by (simp add: ceil_last)
    qed
    have ne: "?chunk \<noteq> []"
      using True by simp
    have c1: "snd (delete_loop w bucket keys i) = None"
      by (simp add: step ih)
    have c2: "concat (map fst (fst (delete_loop w bucket keys i))) = drop i keys"
      by (simp add: step ih cat)
    have c3: "length (fst (delete_loop w bucket keys i)) = (length keys - i + 999) div 1000"
      by (simp add: step ih len)
    have c4: "\<forall>r \<in> set (fst (delete_loop w bucket keys i)). fst r \<noteq> [] \<and> length (fst r) \<le> 1000 \<and> snd r"
      using ih ne by (simp add: step)
    from c1 c2 c3 c4 show ?thesis by blast
  qed
qed


text \<open>
  C3: for a key list of any length \<open>M\<close>, when no request raises, bulk delete sends exactly
  \<open>ceil(M / 1000)\<close> requests one after the other, each with at least one and at most 1000
  keys and with the quiet flag set, and the keys of the requests, in the order sent, are the
  key list: every key once, in list order.
\<close>

theorem s3_delete_many_batches:
  assumes "\<forall>ks. delete_objects w bucket ks True = None"
  shows "snd (s3_delete_many w bucket keys) = None \<and>
    length (fst (s3_delete_many w bucket keys)) = (length keys + 999) div 1000 \<and>
    int (length (fst (s3_delete_many w bucket keys))) = \<lceil>real (length keys) / 1000\<rceil> \<and>
    (\<forall>r \<in> set (fst (s3_delete_many w bucket keys)). fst r \<noteq> [] \<and> length (fst r) \<le> 1000 \<and> snd r) \<and>
    concat (map fst (fst (s3_delete_many w bucket keys))) = keys"
proof -
  have base: "snd (s3_delete_many w bucket keys) = None \<and>
    length (fst (s3_delete_many w bucket keys)) = (length keys + 999) div 1000 \<and>
    (\<forall>r \<in> set (fst (s3_delete_many w bucket keys)). fst r \<noteq> [] \<and> length (fst r) \<le> 1000 \<and> snd r) \<and>
    concat (map fst (fst (s3_delete_many w bucket keys))) = keys"
    using delete_loop_ok [OF assms, of keys 0] by (simp add: s3_delete_many_def)
  have "\<lceil>real_of_int (int (length keys)) / real_of_int 1000\<rceil> = (int (length keys) + 1000 - 1) div 1000"
    by (rule ceil_div_real) simp
  then have "\<lceil>real (length keys) / 1000\<rceil> = int ((length keys + 999) div 1000)"
    by (simp add: zdiv_int)
  with base show ?thesis
    by simp
qed

lemma delete_objects_calm: "\<forall>ks. delete_objects (calm_world n) b ks True = None"
  by (simp add: calm_world_def)

theorem s3_delete_many_batches_witness:
  "(\<forall>ks. delete_objects (calm_world 0) ''b'' ks True = None) \<and>
   length (fst (s3_delete_many (calm_world 0) ''b'' (replicate 2001 ''k''))) = 3 \<and>
   concat (map fst (fst (s3_delete_many (calm_world 0) ''b'' (replicate 2001 ''k'')))) = replicate 2001 ''k'' \<and>
   length (fst (s3_delete_many (calm_world 0) ''b'' [])) = 0"
  using s3_delete_many_batches [OF delete_objects_calm, of 0 "''b''" "replicate 2001 ''k''"]
    s3_delete_many_batches [OF delete_objects_calm, of 0 "''b''" "[]"]
    delete_objects_calm [of 0 "''b''"]
  by simp

subsection \<open>Ranged reads\<close>

lemma randint_range: "a \<le> b \<Longrightarrow> \<exists>r. randint u a b = Inr r \<and> a \<le> r \<and> r \<le> b"
proof -
  assume ab: "a \<le> b"
  then have w: "0 < b - a + 1" by simp
  have lo: "0 \<le> int u mod (b - a + 1)"
    using w by (rule pos_mod_sign)
  have "int u mod (b - a + 1) < b - a + 1"
    using w by (rule pos_mod_bound)
  then have hi: "a + int u mod (b - a + 1) \<le> b"
    by linarith
  from ab lo hi show ?thesis
    by (simp add: randint_def)
qed

lemma randint_onto: "a \<le> r \<Longrightarrow> r \<le> b \<Longrightarrow> randint (nat (r - a)) a b = Inr r"
  by (simp add: randint_def)

lemma range_start_cases:
  "\<exists>start. range_start sz range_size u = Inr start \<and>
     (range_size < sz \<longrightarrow> 0 \<le> start \<and> start \<le> sz - range_size) \<and>
     (sz \<le> range_size \<longrightarrow> start = 0)"
proof (cases "sz \<le> range_size")
  case True
  then show ?thesis by (simp add: range_start_def)
next
  case False
  then have "0 \<le> sz - range_size" by simp
  from randint_range [OF this, of u] False show ?thesis
    by (auto simp: range_start_def)
qed

lemma range_read_loop_requests:
  "(start, end_off) \<in> set (fst (range_read_loop w bucket key sz range_size js n)) \<Longrightarrow>
     \<exists>j \<in> set js. range_start sz range_size (randbits w key j) = Inr start \<and>
       end_off = start + range_size - 1"
proof (induction js arbitrary: n)
  case Nil
  then show ?case by simp
next
  case (Cons j js)
  obtain s where s: "range_start sz range_size (randbits w key j) = Inr s"
    using range_start_cases by blast
  show ?case
  proof (cases "get_object_range w bucket key s (s + range_size - 1)")
    case (Inl e)
    with Cons.prems s show ?thesis by (simp add: Let_def)
  next
    case (Inr len)
    with Cons.prems s
    have "(start, end_off) = (s, s + range_size - 1) \<or>
      (start, end_off) \<in> set (fst (range_read_loop w bucket key sz range_size js (n + int len)))"
      by (auto simp: Let_def split: prod.splits)
    then show ?thesis
    proof
      assume "(start, end_off) = (s, s + range_size - 1)"
      with s show ?thesis by simp
    next
      assume "(start, end_off) \<in> set (fst (range_read_loop w bucket key sz range_size js (n + int len)))"
      from Cons.IH [OF this] show ?thesis by auto
    qed
  qed
qed

text \<open>When no ranged request raises, the worker issues one request per iteration.\<close>

lemma range_read_loop_length:
  "(\<forall>s e. \<exists>len. get_object_range w bucket key s e = Inr len) \<Longrightarrow>
     length (fst (range_read_loop w bucket key sz range_size js n)) = length js"
proof (induction js arbitrary: n)
  case Nil
  then show ?case by simp
next
  case (Cons j js)
  obtain s where s: "range_start sz range_size (randbits w key j) = Inr s"
    using range_start_cases by blast
  obtain len where len: "get_object_range w bucket key s (s + range_size - 1) = Inr len"
    using Cons.prems by blast
  from Cons.IH [OF Cons.prems, of "n + int len"] s len show ?case
    by (simp add: Let_def case_prod_beta)
qed

text \<open>
  C2: whatever size the head request reports and whatever the random source yields, every
  ranged request of a worker has a start offset with \<open>0 \<le> start \<le> size - range_size\<close> when
  \<open>size > range_size\<close> and \<open>start = 0\<close> otherwise, and its end offset is
  \<open>start + range_size - 1\<close>, a range of exactly \<open>range_size\<close> bytes.
\<close>

theorem range_read_one_requests:
  assumes "head_object w bucket key = Inr sz"
    and "(start, end_off) \<in> set (fst (range_read_one w bucket ranges_per_obj range_size key))"
  shows "(range_size < sz \<longrightarrow> 0 \<le> start \<and> start \<le> sz - range_size) \<and>
     (sz \<le> range_size \<longrightarrow> start = 0) \<and>
     end_off = start + range_size - 1 \<and> end_off - start + 1 = range_size"
proof -
  from assms have "(start, end_off) \<in>
      set (fst (range_read_loop w bucket key sz range_size [0..<nat ranges_per_obj] 0))"
    by (simp add: range_read_one_def)
  then obtain j where j: "range_start sz range_size (randbits w key j) = Inr start"
      and e: "end_off = start + range_size - 1"
    using range_read_loop_requests by blast
  from range_start_cases [of sz range_size "randbits w key j"] j e show ?thesis
    by auto
qed

theorem range_read_one_requests_witness:
  "head_object (calm_world 100) ''b'' ''k'' = Inr 100 \<and>
   fst (range_read_one (calm_world 100) ''b'' 3 10 ''k'') = [(3, 12), (10, 19), (17, 26)] \<and>
   (0::int) \<le> 10 \<and> (10::int) \<le> 100 - 10 \<and> (19::int) = 10 + 10 - 1 \<and>
   head_object (calm_world 5) ''b'' ''k'' = Inr 5 \<and>
   fst (range_read_one (calm_world 5) ''b'' 2 10 ''k'') = [(0, 9), (0, 9)]"
proof -
  have h1: "head_object (calm_world 100) ''b'' ''k'' = Inr 100"
    by (simp add: calm_world_def)
  have r1: "fst (range_read_one (calm_world 100) ''b'' 3 10 ''k'') = [(3, 12), (10, 19), (17, 26)]"
    by (simp add: range_read_one_def calm_world_def range_start_def randint_def upt_rec Let_def)
  have h2: "head_object (calm_world 5) ''b'' ''k'' = Inr 5"
    by (simp add: calm_world_def)
  have r2: "fst (range_read_one (calm_world 5) ''b'' 2 10 ''k'') = [(0, 9), (0, 9)]"
    by (simp add: range_read_one_def calm_world_def range_start_def randint_def upt_rec Let_def)
  have m1: "(10, 19) \<in> set (fst (range_read_one (calm_world 100) ''b'' 3 10 ''k''))"
    by (simp add: r1)
  have m2: "(0, 9) \<in> set (fst (range_read_one (calm_world 5) ''b'' 2 10 ''k''))"
    by (simp add: r2)
  have a1: "(0::int) \<le> 10 \<and> (10::int) \<le> 100 - 10 \<and> (19::int) = 10 + 10 - 1"
    using range_read_one_requests [OF h1 m1] by simp
  have a2: "((10::int) \<le> 5 \<longrightarrow> (0::int) = 0)"
    using range_read_one_requests [OF h2 m2] by blast
  from a1 a2 h1 r1 h2 r2 show ?thesis
    by blast
qed

subsection \<open>Local data generator\<close>

lemma draw_bytes_add:
  "draw_bytes gb (m + n) s =
     (case draw_bytes gb m s of (a, s') \<Rightarrow>
        (case draw_bytes gb n s' of (b, s'') \<Rightarrow> (a @ b, s'')))"
  by (induction m arbitrary: s) (simp_all split: prod.splits)

lemma length_draw_bytes: "length (fst (draw_bytes gb n s)) = n"
  by (induction n arbitrary: s) (simp_all add: case_prod_beta)

lemma ceil_div_step:
  fixes r c :: int
  assumes "1 \<le> c" and "0 < r"
  shows "(r + c - 1) div c = 1 + (r - min c r + c - 1) div c"
proof (cases "r \<le> c")
  case True
  have "(r + c - 1) div c = ((r - 1) + c) div c" by (simp add: algebra_simps)
  also have "\<dots> = (r - 1) div c + 1" using assms by simp
  also have "(r - 1) div c = 0" using assms True by simp
  finally have l: "(r + c - 1) div c = 1" by simp
  have "(r - min c r + c - 1) div c = (c - 1) div c" using True by simp
  also have "\<dots> = 0" using assms by simp
  finally show ?thesis using l by simp
next
  case False
  have "(r + c - 1) div c = ((r - 1) + c) div c" by (simp add: algebra_simps)
  also have "\<dots> = (r - 1) div c + 1" using assms by simp
  finally show ?thesis using False by simp
qed

text \<open>
  With a chunk size of at least one the loop returns: it appends to what was written the
  blocks that cut the next \<open>remaining\<close> bytes of the generator's stream into pieces.
\<close>

lemma write_loop_returns:
  assumes c: "1 \<le> chunk_bytes"
  shows "\<exists>blocks. write_loop gb chunk_bytes rnd remaining written = Some (written @ blocks) \<and>
     concat blocks = fst (draw_bytes gb (nat remaining) rnd) \<and>
     int (length blocks) = (if 0 < remaining then (remaining + chunk_bytes - 1) div chunk_bytes else 0) \<and>
     (\<forall>b \<in> set blocks. b \<noteq> [] \<and> int (length b) \<le> chunk_bytes)"
proof (induction "nat remaining" arbitrary: remaining rnd written rule: less_induct)
  case less
  show ?case
  proof (cases "0 < remaining")
    case False
    then have "write_loop gb chunk_bytes rnd remaining written = Some (written @ [])"
      by (subst write_loop.simps) simp
    with False show ?thesis by simp
  next
    case True
    define n where "n = min chunk_bytes remaining"
    define blk where "blk = fst (draw_bytes gb (nat n) rnd)"
    define rnd' where "rnd' = snd (draw_bytes gb (nat n) rnd)"
    have n: "1 \<le> n" "n \<le> remaining" "n \<le> chunk_bytes"
      using c True by (simp_all add: n_def)
    have step: "write_loop gb chunk_bytes rnd remaining written =
        write_loop gb chunk_bytes rnd' (remaining - n) (written @ [blk])"
      using True
      by (subst write_loop.simps) (simp add: Let_def block_def n_def blk_def rnd'_def split: prod.splits)
    have "nat (remaining - n) < nat remaining"
      using n by simp
    from less [OF this, of rnd' "written @ [blk]"]
    obtain blocks where b: "write_loop gb chunk_bytes rnd' (remaining - n) (written @ [blk]) =
          Some ((written @ [blk]) @ blocks)"
        "concat blocks = fst (draw_bytes gb (nat (remaining - n)) rnd')"
        "int (length blocks) =
           (if 0 < remaining - n then (remaining - n + chunk_bytes - 1) div chunk_bytes else 0)"
        "\<forall>b \<in> set blocks. b \<noteq> [] \<and> int (length b) \<le> chunk_bytes"
      by blast
    have lenblk: "length blk = nat n"
      by (simp add: blk_def length_draw_bytes)
    have split: "nat remaining = nat n + nat (remaining - n)"
      using n by simp
    have cat: "concat (blk # blocks) = fst (draw_bytes gb (nat remaining) rnd)"
      unfolding split draw_bytes_add
      by (simp add: b(2) blk_def rnd'_def case_prod_beta)
    have cnt0: "(remaining - n + chunk_bytes - 1) div chunk_bytes = 0" if "\<not> 0 < remaining - n"
    proof -
      from that n have "remaining - n = 0" by simp
      then show ?thesis using c by simp
    qed
    have "int (length (blk # blocks)) = 1 + (remaining - n + chunk_bytes - 1) div chunk_bytes"
      using b(3) cnt0 by (cases "0 < remaining - n") simp_all
    also have "\<dots> = (remaining + chunk_bytes - 1) div chunk_bytes"
      using ceil_div_step [OF c True] by (simp add: n_def)
    finally have cnt: "int (length (blk # blocks)) = (remaining + chunk_bytes - 1) div chunk_bytes" .
    have each: "\<forall>b \<in> set (blk # blocks). b \<noteq> [] \<and> int (length b) \<le> chunk_bytes"
      using b(4) lenblk n by auto
    have "write_loop gb chunk_bytes rnd remaining written = Some (written @ (blk # blocks))"
      using step b(1) by simp
    with cat cnt each True show ?thesis
      by (intro exI [of _ "blk # blocks"]) simp
  qed
qed

text \<open>With a chunk size below one and something left to write the loop never returns.\<close>

lemma write_loop_Some_chunk:
  assumes "write_loop gb chunk_bytes rnd remaining written = Some y"
  shows "\<not> (chunk_bytes \<le> 0 \<and> 0 < remaining)"
proof (rule write_loop.raw_induct [where P = "\<lambda>gb c rnd r wr y. \<not> (c \<le> 0 \<and> 0 < r)", OF _ assms])
  fix loop :: "('a \<Rightarrow> byte \<times> 'a) \<Rightarrow> int \<Rightarrow> 'a \<Rightarrow> int \<Rightarrow> byte list list \<Rightarrow> byte list list option"
  fix gb c rnd r wr y
  assume ih: "\<And>gb c rnd r wr y. loop gb c rnd r wr = Some y \<Longrightarrow> \<not> (c \<le> 0 \<and> 0 < r)"
  assume body: "(if 0 < r then let n = min c r in case block gb n rnd of
            (blk, rnd') \<Rightarrow> loop gb c rnd' (r - n) (wr @ [blk]) else Some wr) = Some y"
  show "\<not> (c \<le> 0 \<and> 0 < r)"
  proof
    assume a: "c \<le> 0 \<and> 0 < r"
    then have n: "min c r = c"
      by simp
    obtain blk rnd' where blk: "block gb c rnd = (blk, rnd')"
      by (cases "block gb c rnd")
    from body a have "loop gb c rnd' (r - c) (wr @ [blk]) = Some y"
      by (simp add: Let_def n blk)
    from ih [OF this] a show False
      by simp
  qed
qed

lemma write_loop_diverges:
  "chunk_bytes \<le> 0 \<Longrightarrow> 0 < remaining \<Longrightarrow> write_loop gb chunk_bytes rnd remaining written = None"
  using write_loop_Some_chunk [of gb chunk_bytes rnd remaining written]
  by (cases "write_loop gb chunk_bytes rnd remaining written") auto

text \<open>
  Whatever the chunk size, the blocks handed to \<open>f.write\<close> are the first \<open>size_bytes\<close>
  bytes of the seeded generator's stream, cut into pieces.
\<close>

lemma write_local_file_blocks:
  assumes "1 \<le> chunk_bytes"
  shows "\<exists>blocks. write_local_file gb seeded size_bytes chunk_bytes = Some blocks \<and>
     concat blocks = fst (draw_bytes gb (nat size_bytes) seeded) \<and>
     int (length blocks) =
       (if 0 < size_bytes then (size_bytes + chunk_bytes - 1) div chunk_bytes else 0) \<and>
     (\<forall>b \<in> set blocks. int (length b) \<le> chunk_bytes)"
  using write_loop_returns [OF assms, of gb seeded size_bytes "[]"]
  by (auto simp: write_local_file_def)

lemma foldl_raw_write:
  "foldl (raw_write cap) content blocks = content @ concat (map (take cap) blocks)"
  by (induction blocks arbitrary: content) (simp_all add: raw_write_def)

lemma file_written_concat: "file_written cap blocks = concat (map (take cap) blocks)"
  by (simp add: file_written_def foldl_raw_write)

lemma file_written_whole:
  assumes "\<forall>b \<in> set blocks. length b \<le> cap"
  shows "file_written cap blocks = concat blocks"
proof -
  have "map (take cap) blocks = blocks"
    using assms by (simp add: map_idI)
  then show ?thesis
    by (simp add: file_written_concat)
qed

text \<open>
  With a chunk size that one raw write can take, the file is the first \<open>size_bytes\<close> bytes
  of the stream.
\<close>

lemma file_written_small_chunk:
  assumes "1 \<le> chunk_bytes" and "chunk_bytes \<le> int cap"
  shows "map_option (file_written cap) (write_local_file gb seeded size_bytes chunk_bytes) =
     Some (fst (draw_bytes gb (nat size_bytes) seeded))"
proof -
  from write_local_file_blocks [OF assms(1), of gb seeded size_bytes]
  obtain blocks where b: "write_local_file gb seeded size_bytes chunk_bytes = Some blocks"
      "concat blocks = fst (draw_bytes gb (nat size_bytes) seeded)"
      "\<forall>b \<in> set blocks. int (length b) \<le> chunk_bytes"
    by blast
  from b(3) assms(2) have "\<forall>b \<in> set blocks. length b \<le> cap"
    by fastforce
  then have "file_written cap blocks = concat blocks"
    by (rule file_written_whole)
  with b show ?thesis
    by simp
qed

text \<open>
  With a chunk size of at least the target size there is one write, and the file is what
  that one write stores.
\<close>

lemma file_written_one_chunk:
  assumes "0 < size_bytes" and "size_bytes \<le> chunk_bytes"
  shows "map_option (file_written cap) (write_local_file gb seeded size_bytes chunk_bytes) =
     Some (take cap (fst (draw_bytes gb (nat size_bytes) seeded)))"
proof -
  have c: "1 \<le> chunk_bytes"
    using assms by simp
  from write_local_file_blocks [OF c, of gb seeded size_bytes]
  obtain blocks where b: "write_local_file gb seeded size_bytes chunk_bytes = Some blocks"
      "concat blocks = fst (draw_bytes gb (nat size_bytes) seeded)"
      "int (length blocks) = (size_bytes + chunk_bytes - 1) div chunk_bytes"
    using assms(1) by auto
  have "(size_bytes + chunk_bytes - 1) div chunk_bytes =
      1 + (size_bytes - min chunk_bytes size_bytes + chunk_bytes - 1) div chunk_bytes"
    using c assms(1) by (rule ceil_div_step)
  also have "(size_bytes - min chunk_bytes size_bytes + chunk_bytes - 1) div chunk_bytes = 0"
    using assms c by simp
  finally have "length blocks = 1"
    using b(3) by simp
  then obtain blk where blk: "blocks = [blk]"
    by (cases blocks) auto
  with b(2) have "file_written cap blocks =
      take cap (fst (draw_bytes gb (nat size_bytes) seeded))"
    by (simp add: file_written_concat)
  with b(1) show ?thesis
    by simp
qed

lemma draw_bytes_numeral:
  "draw_bytes gb (numeral k) s =
     (case gb s of (b, s') \<Rightarrow> (case draw_bytes gb (pred_numeral k) s' of (bs, s'') \<Rightarrow> (b # bs, s'')))"
  by (simp add: numeral_eq_Suc)

lemma write_lcg_5_2: "write_local_file lcg (0::nat) 5 2 = Some [[0, 3], [18, 93], [212]]"
  by (simp add: write_local_file_def write_loop.simps block_def lcg_def draw_bytes_numeral)

text \<open>
  C5 fails on the code. For a target of \<open>2 ^ 31\<close> bytes (\<open>--obj-mib 2048\<close>) a chunk size of
  \<open>2 ^ 20\<close> leaves a file of \<open>2 ^ 31\<close> bytes, while a chunk size of \<open>2 ^ 31\<close> hands the
  whole content to one raw write, which on Linux stores 2147479552 bytes of it: the file is
  4096 bytes short of the target and differs from the other, and nothing is raised.
\<close>

theorem write_local_file_short_write:
  "map_option (\<lambda>blocks. length (file_written linux_write_max blocks))
      (write_local_file lcg (0::nat) 2147483648 1048576) = Some 2147483648 \<and>
   map_option (\<lambda>blocks. length (file_written linux_write_max blocks))
      (write_local_file lcg (0::nat) 2147483648 2147483648) = Some 2147479552"
proof -
  have small: "map_option (file_written linux_write_max)
      (write_local_file lcg (0::nat) 2147483648 1048576) =
      Some (fst (draw_bytes lcg (nat 2147483648) 0))"
    by (rule file_written_small_chunk) (simp_all add: linux_write_max_def)
  have one: "map_option (file_written linux_write_max)
      (write_local_file lcg (0::nat) 2147483648 2147483648) =
      Some (take linux_write_max (fst (draw_bytes lcg (nat 2147483648) 0)))"
    by (rule file_written_one_chunk) simp_all
  have "map_option (\<lambda>blocks. length (file_written linux_write_max blocks))
      (write_local_file lcg (0::nat) 2147483648 1048576) =
      map_option length (map_option (file_written linux_write_max)
        (write_local_file lcg (0::nat) 2147483648 1048576))"
    by (simp add: option.map_comp o_def)
  also have "\<dots> = Some 2147483648"
    unfolding small by (simp add: length_draw_bytes)
  finally have first: "map_option (\<lambda>blocks. length (file_written linux_write_max blocks))
      (write_local_file lcg (0::nat) 2147483648 1048576) = Some 2147483648" .
  have "map_option (\<lambda>blocks. length (file_written linux_write_max blocks))
      (write_local_file lcg (0::nat) 2147483648 2147483648) =
      map_option length (map_option (file_written linux_write_max)
        (write_local_file lcg (0::nat) 2147483648 2147483648))"
    by (simp add: option.map_comp o_def)
  also have "\<dots> = Some 2147479552"
    unfolding one by (simp add: length_draw_bytes linux_write_max_def)
  finally have second: "map_option (\<lambda>blocks. length (file_written linux_write_max blocks))
      (write_local_file lcg (0::nat) 2147483648 2147483648) = Some 2147479552" .
  from first second show ?thesis
    by simp
qed

text \<open>
  C10: for every target size of at least zero and every chunk size of at least one the
  generator returns, after exactly \<open>ceil(size_bytes / chunk_bytes)\<close> writes; the bound on
  the chunk size is needed, because with a chunk size below one and a positive target the
  loop never returns.
\<close>

theorem write_local_file_terminates:
  "(0 \<le> size_bytes \<and> 1 \<le> chunk_bytes \<longrightarrow>
      (\<exists>blocks. write_local_file gb seeded size_bytes chunk_bytes = Some blocks \<and>
         int (length blocks) = (size_bytes + chunk_bytes - 1) div chunk_bytes \<and>
         int (length blocks) = \<lceil>real_of_int size_bytes / real_of_int chunk_bytes\<rceil>)) \<and>
   (0 < size_bytes \<and> chunk_bytes \<le> 0 \<longrightarrow>
      write_local_file gb seeded size_bytes chunk_bytes = None)"
proof (intro conjI impI)
  assume a: "0 \<le> size_bytes \<and> 1 \<le> chunk_bytes"
  then have c: "1 \<le> chunk_bytes" by simp
  from write_loop_returns [OF c, of gb seeded size_bytes "[]"]
  obtain blocks where b: "write_local_file gb seeded size_bytes chunk_bytes = Some blocks"
      "int (length blocks) = (if 0 < size_bytes then (size_bytes + chunk_bytes - 1) div chunk_bytes else 0)"
    by (auto simp: write_local_file_def)
  have z: "(size_bytes + chunk_bytes - 1) div chunk_bytes = 0" if "\<not> 0 < size_bytes"
  proof -
    from that a have "size_bytes = 0" by simp
    then show ?thesis using c by simp
  qed
  have n: "int (length blocks) = (size_bytes + chunk_bytes - 1) div chunk_bytes"
    using b(2) z by (cases "0 < size_bytes") simp_all
  have "\<lceil>real_of_int size_bytes / real_of_int chunk_bytes\<rceil> = (size_bytes + chunk_bytes - 1) div chunk_bytes"
    using c by (rule ceil_div_real)
  with b(1) n show "\<exists>blocks. write_local_file gb seeded size_bytes chunk_bytes = Some blocks \<and>
         int (length blocks) = (size_bytes + chunk_bytes - 1) div chunk_bytes \<and>
         int (length blocks) = \<lceil>real_of_int size_bytes / real_of_int chunk_bytes\<rceil>"
    by simp
next
  assume "0 < size_bytes \<and> chunk_bytes \<le> 0"
  then show "write_local_file gb seeded size_bytes chunk_bytes = None"
    by (simp add: write_local_file_def write_loop_diverges)
qed

theorem write_local_file_terminates_witness:
  "write_local_file lcg (0::nat) 5 2 = Some [[0, 3], [18, 93], [212]] \<and>
   int (length [[0, 3], [18, 93], [212 :: byte]]) = (5 + 2 - 1) div 2 \<and>
   write_local_file lcg (0::nat) 5 0 = None \<and>
   write_local_file lcg (0::nat) 5 (- 1) = None"
  using write_local_file_terminates [of 5 2 lcg "0::nat"] write_local_file_terminates [of 5 0 lcg "0::nat"]
    write_local_file_terminates [of 5 "- 1" lcg "0::nat"] write_lcg_5_2
  by simp

subsection \<open>Concurrent phases\<close>

text \<open>The futures that hold a value, and the sum of those values.\<close>

lemma collect_acc: "collect fs tot = (case collect fs 0 of Inl e \<Rightarrow> Inl e | Inr n \<Rightarrow> Inr (tot + n))"
proof (induction fs arbitrary: tot)
  case Nil
  show ?case by simp
next
  case (Cons f fs)
  show ?case
  proof (cases f)
    case (Inl e)
    then show ?thesis by simp
  next
    case (Inr n)
    have "collect (f # fs) tot = collect fs (tot + n)"
      using Inr by simp
    also have "\<dots> = (case collect fs 0 of Inl e \<Rightarrow> Inl e | Inr m \<Rightarrow> Inr (tot + n + m))"
      by (rule Cons.IH)
    also have "\<dots> = (case collect (f # fs) 0 of Inl e \<Rightarrow> Inl e | Inr m \<Rightarrow> Inr (tot + m))"
      using Inr Cons.IH [of n] by (simp split: sum.splits)
    finally show ?thesis .
  qed
qed

lemma collect_all_ok: "\<forall>f \<in> set fs. \<exists>n. f = Inr n \<Longrightarrow> collect fs tot = Inr (tot + sum_list (map projr fs))"
proof (induction fs arbitrary: tot)
  case Nil
  show ?case by simp
next
  case (Cons f fs)
  then obtain n where n: "f = Inr n" by auto
  from Cons have "collect fs (tot + n) = Inr (tot + n + sum_list (map projr fs))"
    by simp
  with n show ?case by simp
qed


text \<open>The sum of the values does not depend on the order of the futures.\<close>

lemma sum_list_projr_perm: "mset fs' = mset fs \<Longrightarrow> sum_list (map projr fs') = sum_list (map projr (fs :: (error + int) list))"
proof -
  assume "mset fs' = mset fs"
  then have "mset (map projr fs') = mset (map projr fs)"
    by (metis mset_map)
  then have "sum_mset (mset (map projr fs')) = sum_mset (mset (map projr fs))"
    by simp
  then show ?thesis
    by (simp only: sum_mset_sum_list)
qed

lemma collect_completed_ok:
  assumes perm: "mset (as_completed w (map op keys)) = mset (map op keys)"
    and ok: "\<forall>k \<in> set keys. op k = Inr (n k)"
  shows "collect (as_completed w (map op keys)) 0 = Inr (sum_list (map n keys))"
proof -
  have "set (as_completed w (map op keys)) = set (map op keys)"
    using perm by (rule mset_eq_setD)
  with ok have all: "\<forall>f \<in> set (as_completed w (map op keys)). \<exists>m. f = Inr m"
    by auto
  have m: "map (projr \<circ> op) keys = map n keys"
    using ok by simp
  have "sum_list (map projr (as_completed w (map op keys))) = sum_list (map n keys)"
    using sum_list_projr_perm [OF perm] by (simp add: m)
  with collect_all_ok [OF all, of 0] show ?thesis
    by simp
qed


text \<open>
  C7: in each of the three phases, whatever the order in which the workers' results are
  collected, when the phase gets as far as its pool (a positive pool size; for the upload
  also accepted transfer settings and an existing local file) and every per-key operation
  returns a byte count, the phase returns a Stats value whose \<open>bytes_total\<close> is the sum of
  these counts over the keys; the order of completion does not enter the result.
\<close>

theorem phase_total_is_sum:
  assumes perm: "\<forall>fs. mset (as_completed w fs) = mset fs"
    and conc: "0 < max_conc"
  shows
    "(config_error w \<lparr>multipart_threshold = part_size, multipart_chunksize = part_size,
           max_concurrency = max_conc, use_threads = True\<rparr> = None \<and>
      getsize files local_path = Inr file_size \<and>
      (\<forall>k \<in> set keys. upload_one w local_path bucket
          \<lparr>multipart_threshold = part_size, multipart_chunksize = part_size,
           max_concurrency = max_conc, use_threads = True\<rparr> file_size k = Inr (u k)) \<longrightarrow>
      s3_upload_many w files t0 t1 bucket keys local_path part_size max_conc =
        Inr \<lparr>label = ''S3 PUT (upload_file)'', bytes_total = sum_list (map u keys),
             seconds = t1 - t0\<rparr>) \<and>
     ((\<forall>k \<in> set keys. download_one w bucket read_chunk k = Inr (d k)) \<longrightarrow>
      s3_download_many w t0 t1 bucket keys read_chunk max_conc =
        Inr \<lparr>label = ''S3 GET (stream read)'', bytes_total = sum_list (map d keys),
             seconds = t1 - t0\<rparr>) \<and>
     ((\<forall>k \<in> set keys. snd (range_read_one w bucket ranges_per_obj range_size k) = Inr (r k)) \<longrightarrow>
      s3_range_read_many w t0 t1 bucket keys ranges_per_obj range_size max_conc =
        Inr \<lparr>label = range_label ranges_per_obj range_size, bytes_total = sum_list (map r keys),
             seconds = t1 - t0\<rparr>)"
proof (intro conjI impI)
  let ?cfg = "\<lparr>multipart_threshold = part_size, multipart_chunksize = part_size,
           max_concurrency = max_conc, use_threads = True\<rparr>"
  assume a: "config_error w ?cfg = None \<and> getsize files local_path = Inr file_size \<and>
      (\<forall>k \<in> set keys. upload_one w local_path bucket ?cfg file_size k = Inr (u k))"
  have p: "mset (as_completed w (map (upload_one w local_path bucket ?cfg file_size) keys)) =
      mset (map (upload_one w local_path bucket ?cfg file_size) keys)"
    using perm by simp
  have "collect (as_completed w (map (upload_one w local_path bucket ?cfg file_size) keys)) 0 =
      Inr (sum_list (map u keys))"
    using p a by (intro collect_completed_ok) simp_all
  with a conc show "s3_upload_many w files t0 t1 bucket keys local_path part_size max_conc =
        Inr \<lparr>label = ''S3 PUT (upload_file)'', bytes_total = sum_list (map u keys),
             seconds = t1 - t0\<rparr>"
    by (simp add: s3_upload_many_def)
next
  assume a: "\<forall>k \<in> set keys. download_one w bucket read_chunk k = Inr (d k)"
  have p: "mset (as_completed w (map (download_one w bucket read_chunk) keys)) =
      mset (map (download_one w bucket read_chunk) keys)"
    using perm by simp
  have "collect (as_completed w (map (download_one w bucket read_chunk) keys)) 0 =
      Inr (sum_list (map d keys))"
    using p a by (rule collect_completed_ok)
  with conc show "s3_download_many w t0 t1 bucket keys read_chunk max_conc =
        Inr \<lparr>label = ''S3 GET (stream read)'', bytes_total = sum_list (map d keys),
             seconds = t1 - t0\<rparr>"
    by (simp add: s3_download_many_def)
next
  let ?op = "\<lambda>k. snd (range_read_one w bucket ranges_per_obj range_size k)"
  assume a: "\<forall>k \<in> set keys. ?op k = Inr (r k)"
  have p: "mset (as_completed w (map ?op keys)) = mset (map ?op keys)"
    using perm by simp
  have "collect (as_completed w (map ?op keys)) 0 = Inr (sum_list (map r keys))"
    using p a by (rule collect_completed_ok)
  with conc show "s3_range_read_many w t0 t1 bucket keys ranges_per_obj range_size max_conc =
        Inr \<lparr>label = range_label ranges_per_obj range_size, bytes_total = sum_list (map r keys),
             seconds = t1 - t0\<rparr>"
    by (simp add: s3_range_read_many_def)
qed

lemma calm_perm: "\<forall>fs. mset (as_completed (calm_world n) fs) = mset fs"
  by (simp add: calm_world_def)


theorem phase_total_is_sum_witness:
  "(\<forall>fs. mset (as_completed (calm_world 7) fs) = mset fs) \<and> (0::int) < 2 \<and>
   s3_upload_many (calm_world 7) [''f'' \<mapsto> [1, 2, 3]] 0 1 ''b'' [''x'', ''y''] ''f'' 8 2 =
     Inr \<lparr>label = ''S3 PUT (upload_file)'', bytes_total = 6, seconds = 1\<rparr> \<and>
   s3_download_many (calm_world 7) 0 1 ''b'' [''x'', ''y''] 1024 2 =
     Inr \<lparr>label = ''S3 GET (stream read)'', bytes_total = 14, seconds = 1\<rparr> \<and>
   s3_range_read_many (calm_world 7) 0 1 ''b'' [''x'', ''y''] 3 2 2 =
     Inr \<lparr>label = range_label 3 2, bytes_total = 12, seconds = 1\<rparr>"
proof -
  have g: "getsize [''f'' \<mapsto> [1, 2, 3]] ''f'' = Inr 3"
    by (simp add: getsize_def)
  have cf: "config_error (calm_world 7) \<lparr>multipart_threshold = 8, multipart_chunksize = 8,
           max_concurrency = 2, use_threads = True\<rparr> = None"
    by (simp add: calm_world_def)
  have u: "\<forall>k \<in> set [''x'', ''y'']. upload_one (calm_world 7) ''f'' ''b''
          \<lparr>multipart_threshold = 8, multipart_chunksize = 8,
           max_concurrency = 2, use_threads = True\<rparr> 3 k = Inr ((\<lambda>k. 3) k)"
    by (simp add: upload_one_def calm_world_def)
  have d: "\<forall>k \<in> set [''x'', ''y'']. download_one (calm_world 7) ''b'' 1024 k = Inr ((\<lambda>k. 7) k)"
    by (simp add: download_one_def calm_world_def)
  have r: "\<forall>k \<in> set [''x'', ''y'']. snd (range_read_one (calm_world 7) ''b'' 3 2 k) = Inr ((\<lambda>k. 6) k)"
    by (simp add: range_read_one_def calm_world_def range_start_def randint_def upt_rec Let_def)
  have c: "(0::int) < 2"
    by simp
  from phase_total_is_sum [where w = "calm_world 7" and max_conc = 2
      and files = "[''f'' \<mapsto> [1, 2, 3]]" and local_path = "''f''" and file_size = 3
      and keys = "[''x'', ''y'']" and bucket = "''b''" and part_size = 8 and u = "\<lambda>k. 3"
      and ?t0.0 = 0 and ?t1.0 = 1 and read_chunk = 1024 and d = "\<lambda>k. 7"
      and ranges_per_obj = 3 and range_size = 2 and r = "\<lambda>k. 6", OF calm_perm c]
    g cf u d r calm_perm [of 7]
  show ?thesis
    by simp
qed



subsection \<open>Cleanup at the end of a run\<close>

lemma delete_loop_concat:
  "snd (delete_loop w bucket keys i) = None \<Longrightarrow>
     concat (map fst (fst (delete_loop w bucket keys i))) = drop i keys"
proof (induction w bucket keys i rule: delete_loop.induct)
  case (1 w bucket keys i)
  show ?case
  proof (cases "i < length keys")
    case False
    then show ?thesis
      by (simp add: delete_loop_done)
  next
    case True
    show ?thesis
    proof (cases "delete_objects w bucket (take 1000 (drop i keys)) True")
      case (Some e)
      with True 1(2) show ?thesis
        by (simp add: delete_loop_raise)
    next
      case None
      note step = delete_loop_step [OF True None]
      from 1(2) have "snd (delete_loop w bucket keys (i + 1000)) = None"
        by (simp add: step)
      with 1(1) [OF True refl None]
      have ih: "concat (map fst (fst (delete_loop w bucket keys (i + 1000)))) = drop (i + 1000) keys"
        by simp
      have cat: "take 1000 (drop i keys) @ drop (i + 1000) keys = drop i keys"
        by (metis add.commute append_take_drop_id drop_drop)
      show ?thesis
        by (simp add: step ih cat)
    qed
  qed
qed

lemma cleanup_completed:
  assumes "cleanup w files bucket keys keep local_path = (evs, files', None)"
  shows "evs = map (\<lambda>(ks, q). DeleteObjects bucket ks q)
             (if keep then [] else fst (s3_delete_many w bucket keys)) @ [OsRemove local_path] \<and>
     files' local_path = None \<and>
     (\<not> keep \<longrightarrow> snd (s3_delete_many w bucket keys) = None)"
proof (cases keep)
  case True
  with assms show ?thesis
    by (auto simp: cleanup_def os_remove_def split: option.splits if_splits)
next
  case False
  obtain reqs r where d: "s3_delete_many w bucket keys = (reqs, r)"
    by (cases "s3_delete_many w bucket keys")
  with assms False have r: "r = None"
    by (cases r) (simp_all add: cleanup_def)
  with assms False d show ?thesis
    by (auto simp: cleanup_def os_remove_def split: option.splits if_splits)
qed

lemma run_phases_reports:
  "e \<in> set (fst (run_phases w files bucket keys local_path part_size read_chunk range_size
      max_conc ranges_per_obj)) \<Longrightarrow> \<exists>st. e = Report st"
  by (auto simp: run_phases_def split: sum.splits if_splits)

lemma main_completed:
  assumes "main gb seeded w files a = Some (evs, files', None)"
  shows "\<exists>reports evs' files1. (\<forall>e \<in> set reports. \<exists>st. e = Report st) \<and> evs = reports @ evs' \<and>
     cleanup w files1 (arg_bucket a) (main_keys a) (arg_keep a) (local_path_of a) = (evs', files', None)"
proof -
  from assms obtain blocks where
    b: "write_local_file gb seeded (arg_obj_mib a * 1024 * 1024) (arg_write_chunk_kib a * 1024) = Some blocks"
    by (auto simp: main_def Let_def split: option.splits)
  define files1 where "files1 = files(local_path_of a \<mapsto> file_written (write_max w) blocks)"
  define ph where "ph = run_phases w files1 (arg_bucket a) (main_keys a) (local_path_of a)
      (arg_part_mib a * 1024 * 1024) (arg_read_chunk_kib a * 1024) (arg_range_kib a * 1024)
      (arg_max_concurrency a) (arg_range_reads_per_obj a)"
  define cl where "cl = cleanup w files1 (arg_bucket a) (main_keys a) (arg_keep a) (local_path_of a)"
  have m: "Some (evs, files', None) =
      Some (if now w 1 - now w 0 = 0 then ([], files1, Some ZeroDivisionError)
            else (case ph of
                    (reports, Some e) \<Rightarrow> (reports, files1, Some e)
                  | (reports, None) \<Rightarrow>
                      (case cl of (evs, files2, r) \<Rightarrow> (reports @ evs, files2, r))))"
    using assms b unfolding main_def Let_def files1_def ph_def cl_def by simp
  obtain reports r' where ph2: "ph = (reports, r')"
    by (cases ph)
  obtain evs' files2 r where cl2: "cl = (evs', files2, r)"
    by (cases cl) auto
  from m ph2 have r': "r' = None"
    by (cases r') (auto split: if_splits)
  from m ph2 cl2 r' have "evs = reports @ evs'" "files2 = files'" "r = None"
    by (auto split: if_splits)
  moreover have "\<forall>e \<in> set reports. \<exists>st. e = Report st"
    using run_phases_reports ph2 unfolding ph_def by (metis fst_conv)
  ultimately show ?thesis
    using cl2 unfolding cl_def by blast
qed

lemma bench_args_fields:
  "arg_bucket (bench_args k) = ''b''" "arg_keys (bench_args k) = 2" "arg_obj_mib (bench_args k) = 0"
  "arg_write_chunk_kib (bench_args k) = 1024" "arg_part_mib (bench_args k) = 8"
  "arg_read_chunk_kib (bench_args k) = 1024" "arg_max_concurrency (bench_args k) = 2"
  "arg_range_reads_per_obj (bench_args k) = 0" "arg_range_kib (bench_args k) = 256"
  "arg_keep (bench_args k) = k"
  by (simp_all add: bench_args_def)

lemma bench_keys: "main_keys (bench_args k) = [''p/obj_00000.bin'', ''p/obj_00001.bin'']"
  by code_simp

lemma bench_path: "local_path_of (bench_args k) = ''/tmp/s3_microbench_0MiB.bin''"
  by code_simp

lemma main_calm_keep:
  "main lcg (0::nat) (calm_world 0) Map.empty (bench_args True) =
     Some ([Report \<lparr>label = ''S3 PUT (upload_file)'', bytes_total = 0, seconds = 1\<rparr>,
            Report \<lparr>label = ''S3 GET (stream read)'', bytes_total = 0, seconds = 1\<rparr>,
            OsRemove ''/tmp/s3_microbench_0MiB.bin''],
           Map.empty, None)"
  by (simp add: main_def run_phases_def bench_args_fields bench_keys bench_path calm_world_def
      write_local_file_def write_loop.simps file_written_def s3_upload_many_def
      s3_download_many_def
      upload_one_def download_one_def getsize_def cleanup_def os_remove_def)

lemma main_calm_no_keep:
  "main lcg (0::nat) (calm_world 0) Map.empty (bench_args False) =
     Some ([Report \<lparr>label = ''S3 PUT (upload_file)'', bytes_total = 0, seconds = 1\<rparr>,
            Report \<lparr>label = ''S3 GET (stream read)'', bytes_total = 0, seconds = 1\<rparr>,
            DeleteObjects ''b'' [''p/obj_00000.bin'', ''p/obj_00001.bin''] True,
            OsRemove ''/tmp/s3_microbench_0MiB.bin''],
           Map.empty, None)"
  by (simp add: main_def run_phases_def bench_args_fields bench_keys bench_path calm_world_def
      write_local_file_def write_loop.simps file_written_def s3_upload_many_def
      s3_download_many_def
      upload_one_def download_one_def getsize_def cleanup_def os_remove_def
      s3_delete_many_def delete_loop.simps)

text \<open>
  C1, as the code has it: in a run that completes, the events end with the batch-delete
  requests followed by the call of \<open>os.remove\<close> on the local file, which is gone afterwards
  whether or not keep is set. With keep set there is no delete request; without it the
  requests carry every generated key once, in order.
\<close>

theorem main_cleanup_keep:
  assumes "main gb seeded w files a = Some (evs, files', None)"
  shows "\<exists>reports. (\<forall>e \<in> set reports. \<exists>st. e = Report st) \<and>
     evs = reports @
       map (\<lambda>(ks, q). DeleteObjects (arg_bucket a) ks q)
         (if arg_keep a then [] else fst (s3_delete_many w (arg_bucket a) (main_keys a))) @
       [OsRemove (local_path_of a)] \<and>
     files' (local_path_of a) = None \<and>
     (\<not> arg_keep a \<longrightarrow>
        concat (map fst (fst (s3_delete_many w (arg_bucket a) (main_keys a)))) = main_keys a)"
proof -
  from main_completed [OF assms] obtain reports evs' files1 where
    r: "\<forall>e \<in> set reports. \<exists>st. e = Report st" "evs = reports @ evs'"
    and c: "cleanup w files1 (arg_bucket a) (main_keys a) (arg_keep a) (local_path_of a) = (evs', files', None)"
    by blast
  note cc = cleanup_completed [OF c]
  have "concat (map fst (fst (s3_delete_many w (arg_bucket a) (main_keys a)))) = main_keys a"
    if "\<not> arg_keep a"
    using cc that delete_loop_concat [of w "arg_bucket a" "main_keys a" 0]
    by (simp add: s3_delete_many_def)
  with r cc show ?thesis
    by blast
qed

theorem main_cleanup_keep_witness:
  "main lcg (0::nat) (calm_world 0) Map.empty (bench_args False) =
     Some ([Report \<lparr>label = ''S3 PUT (upload_file)'', bytes_total = 0, seconds = 1\<rparr>,
            Report \<lparr>label = ''S3 GET (stream read)'', bytes_total = 0, seconds = 1\<rparr>,
            DeleteObjects ''b'' [''p/obj_00000.bin'', ''p/obj_00001.bin''] True,
            OsRemove ''/tmp/s3_microbench_0MiB.bin''],
           Map.empty, None) \<and>
   concat (map fst (fst (s3_delete_many (calm_world 0) ''b'' [''p/obj_00000.bin'', ''p/obj_00001.bin'']))) =
     [''p/obj_00000.bin'', ''p/obj_00001.bin'']"
  using main_cleanup_keep [OF main_calm_no_keep] main_calm_no_keep
  by (auto simp: bench_args_fields bench_keys)

text \<open>
  C1 as stated fails: with keep set, a run on two keys sends no delete request, yet it
  calls \<open>os.remove\<close> on the local file and ends with the file gone; the same holds for the
  cleanup step alone on a file of three bytes.
\<close>

theorem keep_still_removes_local_file:
  "arg_keep (bench_args True) \<and>
   main lcg (0::nat) (calm_world 0) Map.empty (bench_args True) =
     Some ([Report \<lparr>label = ''S3 PUT (upload_file)'', bytes_total = 0, seconds = 1\<rparr>,
            Report \<lparr>label = ''S3 GET (stream read)'', bytes_total = 0, seconds = 1\<rparr>,
            OsRemove ''/tmp/s3_microbench_0MiB.bin''],
           Map.empty, None) \<and>
   cleanup (calm_world 3) [''/tmp/s3_microbench_8MiB.bin'' \<mapsto> [1, 2, 3]] ''b'' [''p/obj_00000.bin'']
       True ''/tmp/s3_microbench_8MiB.bin'' =
     ([OsRemove ''/tmp/s3_microbench_8MiB.bin''], Map.empty, None)"
  using main_calm_keep by (simp add: bench_args_fields cleanup_def os_remove_def)

end
